theory Spec2Isabelle
  imports Complex_Main "HOL-Library.Sublist"
begin

section \<open>The cascade engine of scascade.c and the ring buffer of queue.c\<close>

text \<open>
  Node identifiers are array indices and are modelled as naturals; infection times, counters
  and bounds are C \<open>int\<close>s and are modelled as unbounded integers (no counter of the program
  can exceed the number of nodes or arcs of the graph, so no wrap-around is involved).
  Every assertion of the source and every array access outside its array is a value of the
  type \<open>error\<close>; a remainder by a zero \<open>size\<close> is an error as well. Allocations succeed.

  Fields whose C names are keywords or constants of Isabelle are renamed: \<open>size\<close>,
  \<open>begin\<close>, \<open>end\<close>, \<open>nodes\<close> of the queue are \<open>qsize\<close>, \<open>qbegin\<close>, \<open>qend\<close>, \<open>qnodes\<close>;
  \<open>id\<close>, \<open>t\<close>, \<open>p\<close>, \<open>g\<close>, \<open>output\<close> of the epidemic are \<open>eid\<close>, \<open>et\<close>, \<open>ep\<close>, \<open>eg\<close>,
  \<open>eoutput\<close>; the fields of the initial condition carry the prefix \<open>ic_\<close>; \<open>n\<close> of the
  graph is \<open>gn\<close>.
\<close>

datatype error = Assert_not_full | Assert_not_empty | Assert_p | Out_of_bounds | Div_by_zero

subsection \<open>queue.c\<close>

record Queue =
  qsize :: nat
  qbegin :: nat
  qend :: nat
  qnodes :: "nat list"

definition queue_empty :: "Queue \<Rightarrow> bool" where
  "queue_empty q = (qbegin q = qend q)"

definition queue_full :: "Queue \<Rightarrow> bool" where
  "queue_full q = (qbegin q = (qend q + 1) mod qsize q)"

text \<open>The storage comes from \<open>malloc\<close>; its initial contents (here zeros) are never read
  before they are written.\<close>

definition queue_new :: "nat \<Rightarrow> Queue" where
  "queue_new sz = \<lparr>qsize = sz + 1, qbegin = 0, qend = 0, qnodes = replicate (sz + 1) 0\<rparr>"

definition queue_add :: "Queue \<Rightarrow> nat \<Rightarrow> error + Queue" where
  "queue_add q e =
     (if qsize q = 0 then Inl Div_by_zero
      else if queue_full q then Inl Assert_not_full
      else if length (qnodes q) \<le> qend q then Inl Out_of_bounds
      else Inr (q\<lparr>qnodes := (qnodes q)[qend q := e], qend := (qend q + 1) mod qsize q\<rparr>))"

definition queue_get :: "Queue \<Rightarrow> error + nat \<times> Queue" where
  "queue_get q =
     (if length (qnodes q) \<le> qbegin q then Inl Out_of_bounds
      else if queue_empty q then Inl Assert_not_empty
      else if qsize q = 0 then Inl Div_by_zero
      else Inr (qnodes q ! qbegin q, q\<lparr>qbegin := (qbegin q + 1) mod qsize q\<rparr>))"

subsection \<open>The graph\<close>

text \<open>
  Modelled from the spec: the graph type of \<open>prelim.c\<close>, which is not among the sources. The
  spec gives it a node count \<open>n\<close> and, for each node \<open>u\<close>, the ordered sequence \<open>out(u)\<close> of
  its out-neighbours; \<open>g->links[u]\<close> is that sequence and \<open>g->degrees[u]\<close> its length.
\<close>

record graph =
  gn :: nat
  links :: "nat list list"

definition wf_graph :: "graph \<Rightarrow> bool" where
  "wf_graph gr = (length (links gr) = gn gr \<and> list_all (list_all (\<lambda>v. v < gn gr)) (links gr))"

subsection \<open>scascade.c: the epidemic\<close>

datatype Stopc = MaxTime | NumInfected

text \<open>\<open>ic_init\<close> allocates exactly \<open>num_infected\<close> entries of \<open>infected\<close>: the count is the
  length of the list. The entries are read from a file as C \<open>int\<close>s.\<close>

record InitialCondition =
  ic_id :: int
  ic_infected :: "int list"
  ic_bound :: int
  ic_stop_criterion :: Stopc

text \<open>The trace sink \<open>FILE *output\<close>: \<open>None\<close> for the null pointer, otherwise the records
  \<open>(t, u, v, id)\<close> written so far.\<close>

type_synonym trace = "(int \<times> nat \<times> nat \<times> int) list"

record Epidemic =
  eid :: int
  et :: int
  num_infected :: int
  cascade_links :: int
  bound :: int
  stop_criterion :: Stopc
  ep :: real
  eg :: graph
  eoutput :: "trace option"
  infected :: "int list"
  active :: Queue

text \<open>The loop of \<open>epidemic_new\<close> over the seeds: the push, then \<open>infected[s] = 1\<close>.\<close>

fun seed_loop :: "int list \<Rightarrow> Epidemic \<Rightarrow> error + Epidemic" where
  "seed_loop [] e = Inr e"
| "seed_loop (s # ss) e =
     (case queue_add (active e) (nat s) of
        Inl err \<Rightarrow> Inl err
      | Inr q \<Rightarrow>
          if 0 \<le> s \<and> s < int (length (infected e))
          then seed_loop ss (e\<lparr>active := q, infected := (infected e)[nat s := 1]\<rparr>)
          else Inl Out_of_bounds)"

definition epidemic_new :: "real \<Rightarrow> graph \<Rightarrow> InitialCondition \<Rightarrow> trace option \<Rightarrow> error + Epidemic" where
  "epidemic_new p gr ic out =
     seed_loop (ic_infected ic)
       \<lparr>eid = ic_id ic, et = 1, num_infected = int (length (ic_infected ic)),
        cascade_links = 0, bound = ic_bound ic, stop_criterion = ic_stop_criterion ic,
        ep = p, eg = gr, eoutput = out, infected = replicate (gn gr) 0,
        active = queue_new (gn gr)\<rparr>"

subsection \<open>scascade.c: the driver's check of the probability\<close>


subsection \<open>scascade.c: the run\<close>

text \<open>
  \<open>rand()\<close> is a global generator: the run takes the sequence \<open>rnd\<close> of the values it will
  return, and \<open>RAND_MAX\<close>, and threads the number of calls made so far. The comparison
  \<open>(double)rand() <= (double)RAND_MAX * p\<close> is read over the reals.
\<close>

definition trial :: "int \<Rightarrow> real \<Rightarrow> int \<Rightarrow> bool" where
  "trial rand_max p r = (real_of_int r \<le> real_of_int rand_max * p)"

definition fprintf :: "trace option \<Rightarrow> int \<times> nat \<times> nat \<times> int \<Rightarrow> trace option" where
  "fprintf out r = (case out of None \<Rightarrow> None | Some tr \<Rightarrow> Some (tr @ [r]))"

datatype 'a ctl = Next 'a | Return 'a

text \<open>The body of the \<open>for\<close> loop, for the provider \<open>u\<close> at time \<open>t\<close> and the client \<open>v\<close>.\<close>

fun attempt :: "int \<Rightarrow> (nat \<Rightarrow> int) \<Rightarrow> nat \<Rightarrow> int \<Rightarrow> nat \<Rightarrow> Epidemic \<times> nat
    \<Rightarrow> error + (Epidemic \<times> nat) ctl" where
  "attempt rand_max rnd u t v (e, k) =
     (if trial rand_max (ep e) (rnd k) then
        (if length (infected e) \<le> v then Inl Out_of_bounds
         else if infected e ! v = 0 then
           (case queue_add (active e) v of
              Inl err \<Rightarrow> Inl err
            | Inr q \<Rightarrow>
                let e1 = e\<lparr>infected := (infected e)[v := t + 1], active := q,
                           num_infected := num_infected e + 1,
                           cascade_links := cascade_links e + 1, et := t\<rparr>
                in if stop_criterion e1 = NumInfected \<and> bound e1 = num_infected e1
                   then Inr (Return (e1\<lparr>eoutput := fprintf (eoutput e1) (t, u, v, eid e1)\<rparr>, Suc k))
                   else Inr (Next (e1\<lparr>eoutput := fprintf (eoutput e1) (t, u, v, eid e1)\<rparr>, Suc k)))
         else if infected e ! v = t + 1
           then Inr (Next (e\<lparr>cascade_links := cascade_links e + 1,
                              eoutput := fprintf (eoutput e) (t, u, v, eid e)\<rparr>, Suc k))
           else Inr (Next (e\<lparr>eoutput := fprintf (eoutput e) (t, u, v, eid e)\<rparr>, Suc k)))
      else Inr (Next (e, Suc k)))"

text \<open>The \<open>for\<close> loop over the out-neighbours of \<open>u\<close>, in the order of the adjacency list.\<close>

fun spread :: "int \<Rightarrow> (nat \<Rightarrow> int) \<Rightarrow> nat \<Rightarrow> int \<Rightarrow> nat list \<Rightarrow> Epidemic \<times> nat
    \<Rightarrow> error + (Epidemic \<times> nat) ctl" where
  "spread rand_max rnd u t [] s = Inr (Next s)"
| "spread rand_max rnd u t (v # vs) s =
     (case attempt rand_max rnd u t v s of
        Inl err \<Rightarrow> Inl err
      | Inr (Return s') \<Rightarrow> Inr (Return s')
      | Inr (Next s') \<Rightarrow> spread rand_max rnd u t vs s')"

text \<open>The body of the \<open>while\<close> loop.\<close>

fun run_node :: "int \<Rightarrow> (nat \<Rightarrow> int) \<Rightarrow> Epidemic \<times> nat \<Rightarrow> error + (Epidemic \<times> nat) ctl" where
  "run_node rand_max rnd (e, k) =
     (case queue_get (active e) of
        Inl err \<Rightarrow> Inl err
      | Inr (u, q) \<Rightarrow>
          if length (infected e) \<le> u then Inl Out_of_bounds
          else let t = infected e ! u in
            if stop_criterion e = MaxTime \<and> bound e < t then Inr (Return (e\<lparr>active := q\<rparr>, k))
            else if length (links (eg e)) \<le> u then Inl Out_of_bounds
            else spread rand_max rnd u t (links (eg e) ! u) (e\<lparr>active := q\<rparr>, k))"

text \<open>The \<open>while\<close> loop: \<open>None\<close> would be a run that never returns.\<close>

partial_function (option) epidemic_run ::
    "int \<Rightarrow> (nat \<Rightarrow> int) \<Rightarrow> Epidemic \<times> nat \<Rightarrow> (error + Epidemic \<times> nat) option" where
  "epidemic_run rand_max rnd s =
     (if queue_empty (active (fst s)) then Some (Inr s)
      else case run_node rand_max rnd s of
             Inl err \<Rightarrow> Some (Inl err)
           | Inr (Return s') \<Rightarrow> Some (Inr s')
           | Inr (Next s') \<Rightarrow> epidemic_run rand_max rnd s')"

declare epidemic_run.simps [code]


section \<open>Vocabulary of the proofs\<close>

subsection \<open>Results of a loop body\<close>

text \<open>\<open>ok r I Q\<close>: the body did not fail, and its state satisfies \<open>I\<close> if the loop goes
  on and \<open>Q\<close> if the function returns. \<open>post\<close> is the same without the promise that the
  body does not fail.\<close>

fun state_of :: "'a ctl \<Rightarrow> 'a" where
  "state_of (Next s) = s"
| "state_of (Return s) = s"

definition ok :: "error + 'a ctl \<Rightarrow> ('a \<Rightarrow> bool) \<Rightarrow> ('a \<Rightarrow> bool) \<Rightarrow> bool" where
  "ok r I Q = (case r of Inl err \<Rightarrow> False | Inr (Next s) \<Rightarrow> I s | Inr (Return s) \<Rightarrow> Q s)"

definition post :: "error + 'a ctl \<Rightarrow> ('a \<Rightarrow> bool) \<Rightarrow> ('a \<Rightarrow> bool) \<Rightarrow> bool" where
  "post r I Q = (case r of Inl err \<Rightarrow> True | Inr (Next s) \<Rightarrow> I s | Inr (Return s) \<Rightarrow> Q s)"

subsection \<open>Inputs and passes of the loop\<close>

text \<open>The seeds of an initial condition are distinct node identifiers of the graph.\<close>

definition seeds_ok :: "graph \<Rightarrow> InitialCondition \<Rightarrow> bool" where
  "seeds_ok gr ic =
     (distinct (ic_infected ic) \<and> list_all (\<lambda>s. 0 \<le> s \<and> s < int (gn gr)) (ic_infected ic))"

text \<open>The states between the passes of the \<open>while\<close> loop: \<open>observable\<close> closes the start
  state under passes (whether the pass ends the loop body or returns); \<open>passes\<close> follows
  the run exactly (a state that returned is not continued) and logs the time \<open>t\<close> read for
  each dequeued node.\<close>

inductive observable :: "int \<Rightarrow> (nat \<Rightarrow> int) \<Rightarrow> Epidemic \<times> nat \<Rightarrow> Epidemic \<times> nat \<Rightarrow> bool"
  for rm rnd s0 where
  obs_start: "observable rm rnd s0 s0"
| obs_next: "observable rm rnd s0 s \<Longrightarrow> \<not> queue_empty (active (fst s))
    \<Longrightarrow> run_node rm rnd s = Inr (Next s') \<Longrightarrow> observable rm rnd s0 s'"
| obs_return: "observable rm rnd s0 s \<Longrightarrow> \<not> queue_empty (active (fst s))
    \<Longrightarrow> run_node rm rnd s = Inr (Return s') \<Longrightarrow> observable rm rnd s0 s'"

inductive passes :: "int \<Rightarrow> (nat \<Rightarrow> int) \<Rightarrow> Epidemic \<times> nat \<Rightarrow> int list \<Rightarrow> (Epidemic \<times> nat) ctl \<Rightarrow> bool"
  for rm rnd s0 where
  passes_start: "passes rm rnd s0 [] (Next s0)"
| passes_step: "passes rm rnd s0 ts (Next s) \<Longrightarrow> \<not> queue_empty (active (fst s))
    \<Longrightarrow> queue_get (active (fst s)) = Inr (u, q) \<Longrightarrow> run_node rm rnd s = Inr c
    \<Longrightarrow> passes rm rnd s0 (ts @ [infected (fst s) ! u]) c"

text \<open>\<open>reach_in gr S d v\<close>: a walk of \<open>d\<close> arcs leads from a node of \<open>S\<close> to \<open>v\<close>.\<close>

inductive reach_in :: "graph \<Rightarrow> nat set \<Rightarrow> nat \<Rightarrow> nat \<Rightarrow> bool" for gr S where
  reach_seed: "s \<in> S \<Longrightarrow> reach_in gr S 0 s"
| reach_arc: "reach_in gr S d u \<Longrightarrow> u < length (links gr) \<Longrightarrow> v \<in> set (links gr ! u)
    \<Longrightarrow> reach_in gr S (Suc d) v"

subsection \<open>Invariants of a run\<close>

text \<open>The nodes enqueued so far, in the order of their enqueuing: the buffer never wraps
  around in a run, because a node is enqueued only when its infection time leaves 0. In
  a well-formed state they are exactly the nodes with a nonzero infection time, each once.\<close>

definition enq :: "Epidemic \<Rightarrow> nat list" where
  "enq e = take (qend (active e)) (qnodes (active e))"

definition wf_state :: "Epidemic \<Rightarrow> bool" where
  "wf_state e =
     (wf_graph (eg e) \<and> length (infected e) = gn (eg e)
      \<and> qsize (active e) = gn (eg e) + 1 \<and> length (qnodes (active e)) = gn (eg e) + 1
      \<and> qbegin (active e) \<le> qend (active e) \<and> qend (active e) \<le> gn (eg e)
      \<and> distinct (enq e)
      \<and> set (enq e) = {v. v < gn (eg e) \<and> infected e ! v \<noteq> 0}
      \<and> (\<forall>v < gn (eg e). 0 \<le> infected e ! v))"

definition base_inv :: "Epidemic \<Rightarrow> bool" where
  "base_inv e = (wf_state e \<and> num_infected e = int (qend (active e)))"

text \<open>The state after \<open>queue_get\<close>, the buffer after the push of \<open>v\<close>, and the state after a
  first infection of \<open>v\<close> by \<open>u\<close> at time \<open>t\<close> (the assignments of the first branch of the
  loop body, and its trace record).\<close>

definition deq :: "Epidemic \<Rightarrow> Epidemic" where
  "deq e = e\<lparr>active := (active e)\<lparr>qbegin := qbegin (active e) + 1\<rparr>\<rparr>"

definition pushed :: "nat \<Rightarrow> Epidemic \<Rightarrow> Queue" where
  "pushed v e = (active e)\<lparr>qnodes := (qnodes (active e))[qend (active e) := v],
                            qend := qend (active e) + 1\<rparr>"

definition infect :: "nat \<Rightarrow> int \<Rightarrow> nat \<Rightarrow> Queue \<Rightarrow> Epidemic \<Rightarrow> Epidemic" where
  "infect u t v q e =
     e\<lparr>infected := (infected e)[v := t + 1], active := q, num_infected := num_infected e + 1,
       cascade_links := cascade_links e + 1, et := t,
       eoutput := fprintf (eoutput e) (t, u, v, eid e)\<rparr>"

text \<open>What a pass keeps: the parameters, the nodes enqueued before it, and the infection
  time of every node already infected.\<close>

definition grows :: "Epidemic \<Rightarrow> Epidemic \<Rightarrow> bool" where
  "grows e e' =
     (eg e' = eg e \<and> bound e' = bound e \<and> stop_criterion e' = stop_criterion e
      \<and> ep e' = ep e \<and> eid e' = eid e \<and> qbegin (active e') = qbegin (active e)
      \<and> prefix (enq e) (enq e')
      \<and> (\<forall>v < gn (eg e). infected e ! v \<noteq> 0 \<longrightarrow> infected e' ! v = infected e ! v))"

definition keeps :: "Epidemic \<Rightarrow> Epidemic \<Rightarrow> bool" where
  "keeps e0 e =
     (eg e = eg e0 \<and> bound e = bound e0 \<and> stop_criterion e = stop_criterion e0 \<and> ep e = ep e0
      \<and> (\<forall>v < gn (eg e0). infected e0 ! v \<noteq> 0 \<longrightarrow> infected e ! v = infected e0 ! v))"


text \<open>The size criterion can no longer be met.\<close>

definition size_passed :: "Epidemic \<Rightarrow> bool" where
  "size_passed e = (stop_criterion e = NumInfected \<and> bound e \<le> num_infected e)"

text \<open>Breadth-first order: the infection times of the enqueued nodes are sorted and at most
  one more than the time of the node being processed (\<open>ordered_at\<close>) or of the head of the
  buffer (\<open>ordered\<close>); the nodes pushed from slot \<open>j\<close> on have the time \<open>t + 1\<close>.\<close>

definition ordered_at :: "int \<Rightarrow> Epidemic \<Rightarrow> bool" where
  "ordered_at t e =
     (sorted (map (\<lambda>v. infected e ! v) (enq e)) \<and> (\<forall>v \<in> set (enq e). infected e ! v \<le> t + 1))"

definition ordered :: "Epidemic \<Rightarrow> bool" where
  "ordered e =
     (sorted (map (\<lambda>v. infected e ! v) (enq e))
      \<and> (qbegin (active e) < qend (active e)
           \<longrightarrow> (\<forall>v \<in> set (enq e). infected e ! v \<le> infected e ! (enq e ! qbegin (active e)) + 1)))"

definition fresh_from :: "int \<Rightarrow> nat \<Rightarrow> Epidemic \<Rightarrow> bool" where
  "fresh_from t j e =
     (j \<le> qend (active e)
      \<and> (\<forall>i. j \<le> i \<and> i < qend (active e) \<longrightarrow> infected e ! (qnodes (active e) ! i) = t + 1))"

text \<open>Every out-neighbour of a processed node is infected, at most one step later
  (\<open>closed\<close>); the same for every infected node whose time is within the bound
  (\<open>covered\<close>).\<close>

definition closed :: "Epidemic \<Rightarrow> bool" where
  "closed e =
     (\<forall>i < qbegin (active e). \<forall>w \<in> set (links (eg e) ! (enq e ! i)).
        0 < infected e ! w \<and> infected e ! w \<le> infected e ! (enq e ! i) + 1)"

definition covered :: "Epidemic \<Rightarrow> bool" where
  "covered e =
     (\<forall>x \<in> set (enq e). infected e ! x \<le> bound e \<longrightarrow>
        (\<forall>w \<in> set (links (eg e) ! x). 0 < infected e ! w \<and> infected e ! w \<le> infected e ! x + 1))"

text \<open>A trace record counts as a cascade link when its target has the time \<open>t + 1\<close>;
  \<open>cascade_links\<close> is the number of such records, and every target of a record is
  infected.\<close>

definition counted :: "int list \<Rightarrow> int \<times> nat \<times> nat \<times> int \<Rightarrow> bool" where
  "counted ti r = (case r of (t, u, v, i) \<Rightarrow> ti ! v = t + 1)"

definition linked :: "Epidemic \<Rightarrow> bool" where
  "linked e =
     (case eoutput e of
        None \<Rightarrow> False
      | Some tr \<Rightarrow>
          cascade_links e = int (length (filter (counted (infected e)) tr))
          \<and> list_all (\<lambda>r. case r of (t, u, v, i) \<Rightarrow> v < length (infected e) \<and> infected e ! v \<noteq> 0) tr)"

subsection \<open>The graphs, initial conditions and states of the scenarios\<close>

text \<open>The line graph, and its state after the nodes 0 and 1 have been processed.\<close>

definition line5 :: graph where
  "line5 = \<lparr>gn = 5, links = [[1], [2], [3], [4], []]\<rparr>"

definition ic_line :: "int \<Rightarrow> InitialCondition" where
  "ic_line i = \<lparr>ic_id = i, ic_infected = [0], ic_bound = 2, ic_stop_criterion = MaxTime\<rparr>"

definition line_late :: Epidemic where
  "line_late = \<lparr>eid = 7, et = 2, num_infected = 3, cascade_links = 2, bound = 2,
      stop_criterion = MaxTime, ep = 1, eg = line5, eoutput = Some [(1, 0, 1, 7), (2, 1, 2, 7)],
      infected = [1, 2, 3, 0, 0],
      active = \<lparr>qsize = 6, qbegin = 2, qend = 3, qnodes = [0, 1, 2, 0, 0, 0]\<rparr>\<rparr>"

text \<open>The star graph with bound 3: at its start, and after the first infection (of node 1).
  With bound 1: at its start and at its end.\<close>

definition star5 :: graph where
  "star5 = \<lparr>gn = 5, links = [[1, 2, 3, 4], [], [], [], []]\<rparr>"

definition ic_star :: "int \<Rightarrow> InitialCondition" where
  "ic_star i = \<lparr>ic_id = i, ic_infected = [0], ic_bound = 3, ic_stop_criterion = NumInfected\<rparr>"

definition star_start :: Epidemic where
  "star_start = \<lparr>eid = 7, et = 1, num_infected = 1, cascade_links = 0, bound = 3,
      stop_criterion = NumInfected, ep = 1, eg = star5, eoutput = Some [],
      infected = [1, 0, 0, 0, 0],
      active = \<lparr>qsize = 6, qbegin = 0, qend = 1, qnodes = [0, 0, 0, 0, 0, 0]\<rparr>\<rparr>"

definition star_mid :: Epidemic where
  "star_mid = \<lparr>eid = 7, et = 1, num_infected = 2, cascade_links = 1, bound = 3,
      stop_criterion = NumInfected, ep = 1, eg = star5, eoutput = Some [(1, 0, 1, 7)],
      infected = [1, 2, 0, 0, 0],
      active = \<lparr>qsize = 6, qbegin = 1, qend = 2, qnodes = [0, 1, 0, 0, 0, 0]\<rparr>\<rparr>"

definition ic_star1 :: InitialCondition where
  "ic_star1 = \<lparr>ic_id = 7, ic_infected = [0], ic_bound = 1, ic_stop_criterion = NumInfected\<rparr>"

definition star1_start :: Epidemic where
  "star1_start = \<lparr>eid = 7, et = 1, num_infected = 1, cascade_links = 0, bound = 1,
          stop_criterion = NumInfected, ep = 1, eg = star5, eoutput = None,
          infected = [1, 0, 0, 0, 0],
          active = \<lparr>qsize = 6, qbegin = 0, qend = 1, qnodes = [0, 0, 0, 0, 0, 0]\<rparr>\<rparr>"

definition star1_end :: Epidemic where
  "star1_end = \<lparr>eid = 7, et = 1, num_infected = 5, cascade_links = 4, bound = 1,
          stop_criterion = NumInfected, ep = 1, eg = star5, eoutput = None,
          infected = [1, 2, 2, 2, 2],
          active = \<lparr>qsize = 6, qbegin = 5, qend = 5, qnodes = [0, 1, 2, 3, 4, 0]\<rparr>\<rparr>"

text \<open>The triangle: the states between the passes of the loop.\<close>

definition triangle3 :: graph where
  "triangle3 = \<lparr>gn = 3, links = [[1, 2], [2], []]\<rparr>"

definition ic_triangle :: "int \<Rightarrow> InitialCondition" where
  "ic_triangle i = \<lparr>ic_id = i, ic_infected = [0], ic_bound = 10, ic_stop_criterion = MaxTime\<rparr>"

definition tri_state :: "int \<Rightarrow> int \<Rightarrow> trace \<Rightarrow> int list \<Rightarrow> nat \<Rightarrow> nat \<Rightarrow> nat list \<Rightarrow> Epidemic" where
  "tri_state ni cl tr ti b e ns =
     \<lparr>eid = 7, et = 1, num_infected = ni, cascade_links = cl, bound = 10,
      stop_criterion = MaxTime, ep = 1, eg = triangle3, eoutput = Some tr, infected = ti,
      active = \<lparr>qsize = 4, qbegin = b, qend = e, qnodes = ns\<rparr>\<rparr>"

definition tri_start :: Epidemic where
  "tri_start = tri_state 1 0 [] [1, 0, 0] 0 1 [0, 0, 0, 0]"

definition tri_mid1 :: Epidemic where
  "tri_mid1 = tri_state 3 2 [(1, 0, 1, 7), (1, 0, 2, 7)] [1, 2, 2] 1 3 [0, 1, 2, 0]"

definition tri_mid2 :: Epidemic where
  "tri_mid2 = tri_state 3 2 [(1, 0, 1, 7), (1, 0, 2, 7), (2, 1, 2, 7)] [1, 2, 2] 2 3 [0, 1, 2, 0]"

definition tri_end :: Epidemic where
  "tri_end = tri_state 3 2 [(1, 0, 1, 7), (1, 0, 2, 7), (2, 1, 2, 7)] [1, 2, 2] 3 3 [0, 1, 2, 0]"

text \<open>A graph with a co-infection: node 3 is infected by 1 at step 2 and reached again by 2
  at the same step.\<close>

definition diamond4 :: graph where
  "diamond4 = \<lparr>gn = 4, links = [[1, 2], [3], [3], []]\<rparr>"

definition ic_diamond :: InitialCondition where
  "ic_diamond = \<lparr>ic_id = 7, ic_infected = [0], ic_bound = 10, ic_stop_criterion = MaxTime\<rparr>"

definition dia_start :: Epidemic where
  "dia_start = \<lparr>eid = 7, et = 1, num_infected = 1, cascade_links = 0, bound = 10,
      stop_criterion = MaxTime, ep = 1, eg = diamond4, eoutput = Some [],
      infected = [1, 0, 0, 0],
      active = \<lparr>qsize = 5, qbegin = 0, qend = 1, qnodes = [0, 0, 0, 0, 0]\<rparr>\<rparr>"

definition dia_end :: Epidemic where
  "dia_end = \<lparr>eid = 7, et = 2, num_infected = 4, cascade_links = 4, bound = 10,
      stop_criterion = MaxTime, ep = 1, eg = diamond4,
      eoutput = Some [(1, 0, 1, 7), (1, 0, 2, 7), (2, 1, 3, 7), (2, 2, 3, 7)],
      infected = [1, 2, 2, 3],
      active = \<lparr>qsize = 5, qbegin = 4, qend = 4, qnodes = [0, 1, 2, 3, 0]\<rparr>\<rparr>"


section \<open>Lemmas\<close>

subsection \<open>Results of a loop body\<close>

lemma ok_simps [simp]:
  "ok (Inl err) I Q = False" "ok (Inr (Next s)) I Q = I s" "ok (Inr (Return s)) I Q = Q s"
  by (simp_all add: ok_def)

lemma ok_mono: "ok r I Q \<Longrightarrow> (\<And>s. I s \<Longrightarrow> I' s) \<Longrightarrow> (\<And>s. Q s \<Longrightarrow> Q' s) \<Longrightarrow> ok r I' Q'"
  by (auto simp: ok_def split: sum.splits ctl.splits)

lemma ok_conj: "ok r I Q \<Longrightarrow> ok r I' Q' \<Longrightarrow> ok r (\<lambda>s. I s \<and> I' s) (\<lambda>s. Q s \<and> Q' s)"
  by (auto simp: ok_def split: sum.splits ctl.splits)

lemma post_simps [simp]:
  "post (Inl err) I Q = True" "post (Inr (Next s)) I Q = I s" "post (Inr (Return s)) I Q = Q s"
  by (simp_all add: post_def)

lemma ok_post_conj:
  "ok r A B \<Longrightarrow> post r I Q \<Longrightarrow> ok r (\<lambda>s. A s \<and> I s) (\<lambda>s. B s \<and> Q s)"
  by (auto simp: ok_def post_def split: sum.splits ctl.splits)

lemma ok_cases:
  assumes "ok r I Q"
  obtains s where "r = Inr (Next s)" "I s" | s where "r = Inr (Return s)" "Q s"
  using assms by (auto simp: ok_def split: sum.splits ctl.splits)

subsection \<open>The two loops\<close>

text \<open>An invariant of the body of the \<open>for\<close> loop is an invariant of the loop; the
  \<open>while\<close> loop returns when each pass keeps an invariant and decreases a measure.\<close>

lemma spread_rule:
  assumes "I s"
    and "\<And>v s. I s \<Longrightarrow> v \<in> set vs \<Longrightarrow> ok (attempt rm rnd u t v s) I Q"
  shows "ok (spread rm rnd u t vs s) I Q"
  using assms
proof (induction vs arbitrary: s)
  case Nil
  then show ?case by simp
next
  case (Cons v vs)
  from Cons.prems have a: "ok (attempt rm rnd u t v s) I Q" by simp
  show ?case
  proof (cases "attempt rm rnd u t v s")
    case (Inl err)
    with a show ?thesis by simp
  next
    case (Inr c)
    show ?thesis
    proof (cases c)
      case (Next s')
      with a Inr have "I s'" by simp
      then have "ok (spread rm rnd u t vs s') I Q"
        by (rule Cons.IH) (simp add: Cons.prems(2))
      with Inr Next show ?thesis by simp
    next
      case (Return s')
      with a Inr show ?thesis by simp
    qed
  qed
qed

lemma spread_append:
  "spread rm rnd u t (vs @ ws) s =
     (case spread rm rnd u t vs s of
        Inl err \<Rightarrow> Inl err
      | Inr (Return s') \<Rightarrow> Inr (Return s')
      | Inr (Next s') \<Rightarrow> spread rm rnd u t ws s')"
  by (induction vs arbitrary: s) (auto split: sum.splits ctl.splits)

lemma run_rule:
  assumes "I s"
    and step: "\<And>s. I s \<Longrightarrow> \<not> queue_empty (active (fst s))
            \<Longrightarrow> ok (run_node rm rnd s) (\<lambda>s'. I s' \<and> m s' < (m s :: nat)) Q"
    and fin: "\<And>s. I s \<Longrightarrow> queue_empty (active (fst s)) \<Longrightarrow> Q s"
  shows "\<exists>r. epidemic_run rm rnd s = Some (Inr r) \<and> Q r"
  using assms(1)
proof (induction "m s" arbitrary: s rule: less_induct)
  case less
  show ?case
  proof (cases "queue_empty (active (fst s))")
    case True
    then have "epidemic_run rm rnd s = Some (Inr s)"
      by (subst epidemic_run.simps) simp
    with fin[OF less.prems True] show ?thesis by simp
  next
    case False
    from step[OF less.prems False]
    have a: "ok (run_node rm rnd s) (\<lambda>s'. I s' \<and> m s' < m s) Q" .
    show ?thesis
    proof (cases "run_node rm rnd s")
      case (Inl err)
      with a show ?thesis by simp
    next
      case (Inr c)
      show ?thesis
      proof (cases c)
        case (Next s')
        with a Inr have "I s'" "m s' < m s" by simp_all
        from less.hyps[OF this(2) this(1)]
        obtain r where "epidemic_run rm rnd s' = Some (Inr r)" "Q r" by blast
        moreover have "epidemic_run rm rnd s = epidemic_run rm rnd s'"
          using False Inr Next by (subst epidemic_run.simps) simp
        ultimately show ?thesis by simp
      next
        case (Return s')
        with a Inr have "Q s'" by simp
        moreover have "epidemic_run rm rnd s = Some (Inr s')"
          using False Inr Return by (subst epidemic_run.simps) simp
        ultimately show ?thesis by simp
      qed
    qed
  qed
qed

subsection \<open>The buffer in a well-formed state\<close>

text \<open>A push finds room whenever some node is not yet infected: the enqueued nodes are
  distinct and infected, so there are fewer than \<open>n\<close> of them, and \<open>end < n\<close>.\<close>

lemma wf_state_card: 
  assumes "wf_state e"
  shows "card {v. v < gn (eg e) \<and> infected e ! v \<noteq> 0} = qend (active e)"
proof -
  from assms have d: "distinct (enq e)"
    and s: "set (enq e) = {v. v < gn (eg e) \<and> infected e ! v \<noteq> 0}"
    and l: "length (enq e) = qend (active e)"
    by (simp_all add: wf_state_def enq_def)
  from distinct_card[OF d] show ?thesis unfolding s l .
qed

lemma wf_state_room:
  assumes "wf_state e" "v < gn (eg e)" "infected e ! v = 0"
  shows "qend (active e) < gn (eg e)"
proof -
  have "{w. w < gn (eg e) \<and> infected e ! w \<noteq> 0} \<subseteq> {..<gn (eg e)} - {v}"
    using assms(3) by auto
  then have "card {w. w < gn (eg e) \<and> infected e ! w \<noteq> 0} \<le> card ({..<gn (eg e)} - {v})"
    by (intro card_mono) auto
  also have "\<dots> = gn (eg e) - 1" using assms(2) by simp
  finally show ?thesis using wf_state_card[OF assms(1)] assms(2) by simp
qed

lemma queue_add_ok:
  assumes "wf_state e" "v < gn (eg e)" "infected e ! v = 0"
  shows "queue_add (active e) v =
    Inr ((active e)\<lparr>qnodes := (qnodes (active e))[qend (active e) := v], qend := qend (active e) + 1\<rparr>)"
proof -
  have r: "qend (active e) < gn (eg e)" by (rule wf_state_room[OF assms])
  with assms(1) show ?thesis
    by (simp add: queue_add_def queue_full_def wf_state_def)
qed

lemma queue_get_ok:
  assumes "wf_state e" "\<not> queue_empty (active e)"
  shows "queue_get (active e) =
    Inr (qnodes (active e) ! qbegin (active e), (active e)\<lparr>qbegin := qbegin (active e) + 1\<rparr>)"
  using assms by (simp add: queue_get_def queue_empty_def wf_state_def)

lemma enq_infect:
  assumes "qend (active e) < length (qnodes (active e))"
    and "active e' = (active e)\<lparr>qnodes := (qnodes (active e))[qend (active e) := v],
                                qend := qend (active e) + 1\<rparr>"
  shows "enq e' = enq e @ [v]"
  using assms by (simp add: enq_def take_Suc_conv_app_nth)

lemma enq_length: "wf_state e \<Longrightarrow> length (enq e) = qend (active e)"
  by (simp add: wf_state_def enq_def)

lemma enq_nth: "i < qend (active e) \<Longrightarrow> enq e ! i = qnodes (active e) ! i"
  by (simp add: enq_def)

lemma enq_infected: "wf_state e \<Longrightarrow> w \<in> set (enq e) \<Longrightarrow> w < gn (eg e) \<and> infected e ! w \<noteq> 0"
  by (simp add: wf_state_def)

lemma wf_state_infect:
  assumes wf: "wf_state e" and v: "v < gn (eg e)" "infected e ! v = 0" and t: "0 \<le> t"
    and g: "eg e' = eg e"
    and i: "infected e' = (infected e)[v := t + 1]"
    and a: "active e' = (active e)\<lparr>qnodes := (qnodes (active e))[qend (active e) := v],
                                qend := qend (active e) + 1\<rparr>"
  shows "wf_state e'"
proof -
  have room: "qend (active e) < gn (eg e)" by (rule wf_state_room[OF wf v])
  with wf have en: "enq e' = enq e @ [v]"
    by (intro enq_infect[OF _ a]) (simp add: wf_state_def)
  from wf have se: "set (enq e) = {w. w < gn (eg e) \<and> infected e ! w \<noteq> 0}"
    and de: "distinct (enq e)" and li: "length (infected e) = gn (eg e)"
    and nn: "\<forall>w < gn (eg e). 0 \<le> infected e ! w"
    by (simp_all add: wf_state_def)
  from se v have vn: "v \<notin> set (enq e)" by simp
  have s': "set (enq e') = {w. w < gn (eg e') \<and> infected e' ! w \<noteq> 0}"
    using v t li by (auto simp: en se g i nth_list_update)
  have n': "\<forall>w < gn (eg e'). 0 \<le> infected e' ! w"
    using nn t li v by (auto simp: g i nth_list_update)
  have "distinct (enq e')" using vn de by (simp add: en)
  moreover have "length (infected e') = gn (eg e')" using li by (simp add: g i)
  moreover have "qsize (active e') = gn (eg e') + 1 \<and> length (qnodes (active e')) = gn (eg e') + 1
      \<and> qbegin (active e') \<le> qend (active e') \<and> qend (active e') \<le> gn (eg e')"
    using wf room by (simp add: g a wf_state_def)
  moreover have "wf_graph (eg e')" using wf by (simp add: g wf_state_def)
  ultimately show ?thesis
    unfolding wf_state_def[of e'] using s' n' by blast
qed

lemma wf_state_cong:
  "wf_state e \<Longrightarrow> eg e' = eg e \<Longrightarrow> infected e' = infected e \<Longrightarrow> active e' = active e
    \<Longrightarrow> wf_state e'"
  by (simp add: wf_state_def enq_def)

lemma enq_pushed:
  assumes "wf_state e" "v < gn (eg e)" "infected e ! v = 0"
  shows "enq (infect u t v (pushed v e) e) = enq e @ [v]"
proof -
  have "qend (active e) < gn (eg e)" by (rule wf_state_room[OF assms])
  with assms(1) show ?thesis
    by (intro enq_infect) (simp_all add: wf_state_def infect_def pushed_def)
qed

lemma links_in_range:
  assumes "wf_graph gr" "u < gn gr"
  shows "\<forall>v \<in> set (links gr ! u). v < gn gr"
  using assms by (auto simp: wf_graph_def list_all_iff dest!: nth_mem[of u "links gr"])

subsection \<open>One trial\<close>

lemma trial_one: "r \<le> rm \<Longrightarrow> trial rm 1 r"
  by (simp add: trial_def)

lemma attempt_cases [consumes 2, case_names fail first known]:
  assumes "wf_state e" "v < gn (eg e)"
  obtains "\<not> trial rm (ep e) (rnd k)" "attempt rm rnd u t v (e, k) = Inr (Next (e, Suc k))"
  | "trial rm (ep e) (rnd k)" "infected e ! v = 0"
    "attempt rm rnd u t v (e, k) =
       Inr ((if stop_criterion e = NumInfected \<and> bound e = num_infected e + 1
             then Return else Next) (infect u t v (pushed v e) e, Suc k))"
  | "trial rm (ep e) (rnd k)" "infected e ! v \<noteq> 0"
    "attempt rm rnd u t v (e, k) =
       Inr (Next (e\<lparr>cascade_links := cascade_links e + (if infected e ! v = t + 1 then 1 else 0),
                    eoutput := fprintf (eoutput e) (t, u, v, eid e)\<rparr>, Suc k))"
proof -
  from assms have vl: "v < length (infected e)" by (simp add: wf_state_def)
  show ?thesis
  proof (cases "trial rm (ep e) (rnd k)")
    case False
    then show ?thesis using that(1) by simp
  next
    case True
    show ?thesis
    proof (cases "infected e ! v = 0")
      case z: True
      have "attempt rm rnd u t v (e, k) =
       Inr ((if stop_criterion e = NumInfected \<and> bound e = num_infected e + 1
             then Return else Next) (infect u t v (pushed v e) e, Suc k))"
        using True z vl queue_add_ok[OF assms z]
        by (simp add: infect_def pushed_def Let_def)
      then show ?thesis using that(2) True z by blast
    next
      case nz: False
      have "attempt rm rnd u t v (e, k) =
       Inr (Next (e\<lparr>cascade_links := cascade_links e + (if infected e ! v = t + 1 then 1 else 0),
                    eoutput := fprintf (eoutput e) (t, u, v, eid e)\<rparr>, Suc k))"
        using True nz vl by simp
      then show ?thesis using that(3) True nz by blast
    qed
  qed
qed

lemma attempt_law:
  assumes "v < length (infected e)" "attempt rm rnd u t v (e, k) = Inr c"
  shows "cascade_links (fst (state_of c))
           = cascade_links e
             + (if trial rm (ep e) (rnd k) \<and> (infected e ! v = 0 \<or> infected e ! v = t + 1)
                then 1 else 0)
         \<and> eoutput (fst (state_of c))
           = (if trial rm (ep e) (rnd k) then fprintf (eoutput e) (t, u, v, eid e)
              else eoutput e)"
  using assms by (auto simp: Let_def split: if_splits sum.splits)

lemma attempt_maxsize:
  assumes "stop_criterion e = NumInfected" "trial rm (ep e) (rnd k)"
    "v < length (infected e)" "infected e ! v = 0" "queue_add (active e) v = Inr q"
    "bound e = num_infected e + 1"
  shows "attempt rm rnd u t v (e, k) = Inr (Return (infect u t v q e, Suc k))"
  using assms by (simp add: infect_def)

lemma grows_refl: "grows e e"
  by (simp add: grows_def)

lemma grows_trans: "grows e e' \<Longrightarrow> grows e' e'' \<Longrightarrow> grows e e''"
  unfolding grows_def by (metis prefix_order.order_trans)

lemma grows_infect:
  assumes wf: "wf_state e" and v: "v < gn (eg e)" "infected e ! v = 0"
    and g: "eg e' = eg e" "bound e' = bound e" "stop_criterion e' = stop_criterion e"
           "ep e' = ep e" "eid e' = eid e"
    and i: "infected e' = (infected e)[v := t + 1]"
    and a: "active e' = (active e)\<lparr>qnodes := (qnodes (active e))[qend (active e) := v],
                                qend := qend (active e) + 1\<rparr>"
  shows "grows e e'"
proof -
  have room: "qend (active e) < gn (eg e)" by (rule wf_state_room[OF wf v])
  with wf have en: "enq e' = enq e @ [v]"
    by (intro enq_infect[OF _ a]) (simp add: wf_state_def)
  have "\<forall>w < gn (eg e). infected e ! w \<noteq> 0 \<longrightarrow> infected e' ! w = infected e ! w"
  proof (intro allI impI)
    fix w assume "w < gn (eg e)" "infected e ! w \<noteq> 0"
    with v have "v \<noteq> w" by auto
    then show "infected e' ! w = infected e ! w" by (simp add: i)
  qed
  then show ?thesis
    by (simp add: grows_def g a en)
qed

lemma attempt_base:
  assumes b: "base_inv e" and v: "v < gn (eg e)" and t: "0 \<le> t"
  shows "ok (attempt rm rnd u t v (e, k))
           (\<lambda>s'. base_inv (fst s') \<and> grows e (fst s'))
           (\<lambda>s'. base_inv (fst s') \<and> grows e (fst s'))"
proof -
  from b have wf: "wf_state e" and ni: "num_infected e = int (qend (active e))"
    by (simp_all add: base_inv_def)
  from wf v have vl: "v < length (infected e)" by (simp add: wf_state_def)
  show ?thesis
  proof (cases "trial rm (ep e) (rnd k)")
    case False
    with b show ?thesis by (simp add: grows_refl)
  next
    case True
    show ?thesis
    proof (cases "infected e ! v = 0")
      case z: True
      let ?q = "(active e)\<lparr>qnodes := (qnodes (active e))[qend (active e) := v],
                             qend := qend (active e) + 1\<rparr>"
      let ?e1 = "e\<lparr>infected := (infected e)[v := t + 1], active := ?q,
                     num_infected := num_infected e + 1,
                     cascade_links := cascade_links e + 1, et := t,
                     eoutput := fprintf (eoutput e) (t, u, v, eid e)\<rparr>"
      have w1: "wf_state ?e1" by (rule wf_state_infect[OF wf v z t]) simp_all
      have g1: "grows e ?e1" by (rule grows_infect[OF wf v z]) simp_all
      have b1: "base_inv ?e1" using w1 ni by (simp add: base_inv_def)
      from True z vl b1 g1 show ?thesis
        by (simp add: queue_add_ok[OF wf v z] Let_def)
    next
      case nz: False
      have "wf_state (e\<lparr>cascade_links := c, eoutput := x\<rparr>)" for c x
        by (rule wf_state_cong[OF wf]) simp_all
      moreover have "wf_state (e\<lparr>eoutput := x\<rparr>)" for x
        by (rule wf_state_cong[OF wf]) simp_all
      moreover have "grows e (e\<lparr>cascade_links := c, eoutput := x\<rparr>)" for c x
        by (simp add: grows_def enq_def)
      moreover have "grows e (e\<lparr>eoutput := x\<rparr>)" for x
        by (simp add: grows_def enq_def)
      ultimately show ?thesis using True nz vl ni
        by (simp add: base_inv_def)
    qed
  qed
qed

lemma spread_base:
  assumes "base_inv e" "\<forall>v \<in> set vs. v < gn (eg e)" "0 \<le> t"
  shows "ok (spread rm rnd u t vs (e, k))
           (\<lambda>s'. base_inv (fst s') \<and> grows e (fst s'))
           (\<lambda>s'. base_inv (fst s') \<and> grows e (fst s'))"
proof (rule spread_rule)
  show "base_inv (fst (e, k :: nat)) \<and> grows e (fst (e, k))"
    using assms(1) by (simp add: grows_refl)
next
  fix v and s :: "Epidemic \<times> nat"
  assume I: "base_inv (fst s) \<and> grows e (fst s)" and vs: "v \<in> set vs"
  obtain e1 k1 where s: "s = (e1, k1)" by (cases s)
  from I s have b1: "base_inv e1" and g1: "grows e e1" by simp_all
  from g1 have "eg e1 = eg e" by (simp add: grows_def)
  with assms(2) vs have v1: "v < gn (eg e1)" by simp
  from attempt_base[OF b1 v1 assms(3)]
  show "ok (attempt rm rnd u t v s)
           (\<lambda>s'. base_inv (fst s') \<and> grows e (fst s'))
           (\<lambda>s'. base_inv (fst s') \<and> grows e (fst s'))"
    unfolding s by (rule ok_mono) (auto intro: grows_trans[OF g1])
qed

subsection \<open>One pass of the while loop\<close>

lemma deq_simps [simp]:
  "eg (deq e) = eg e" "infected (deq e) = infected e" "bound (deq e) = bound e"
  "stop_criterion (deq e) = stop_criterion e" "ep (deq e) = ep e" "eid (deq e) = eid e"
  "num_infected (deq e) = num_infected e" "cascade_links (deq e) = cascade_links e"
  "eoutput (deq e) = eoutput e" "et (deq e) = et e" "enq (deq e) = enq e"
  "qbegin (active (deq e)) = qbegin (active e) + 1" "qend (active (deq e)) = qend (active e)"
  "qsize (active (deq e)) = qsize (active e)" "qnodes (active (deq e)) = qnodes (active e)"
  by (simp_all add: deq_def enq_def)

lemma head_facts:
  assumes b: "base_inv e" and ne: "\<not> queue_empty (active e)"
  shows "qbegin (active e) < qend (active e)"
    and "qnodes (active e) ! qbegin (active e) = enq e ! qbegin (active e)"
    and "enq e ! qbegin (active e) \<in> set (enq e)"
    and "enq e ! qbegin (active e) < gn (eg e)"
    and "1 \<le> infected e ! (enq e ! qbegin (active e))"
    and "base_inv (deq e)"
proof -
  from b have wf: "wf_state e" by (simp add: base_inv_def)
  from wf ne show lt: "qbegin (active e) < qend (active e)"
    by (simp add: wf_state_def queue_empty_def)
  then show "qnodes (active e) ! qbegin (active e) = enq e ! qbegin (active e)"
    by (simp add: enq_def)
  from wf lt have "qbegin (active e) < length (enq e)"
    by (simp add: enq_def wf_state_def)
  then show m: "enq e ! qbegin (active e) \<in> set (enq e)" by simp
  from wf have se: "set (enq e) = {v. v < gn (eg e) \<and> infected e ! v \<noteq> 0}"
    and nn: "\<forall>v < gn (eg e). 0 \<le> infected e ! v"
    by (simp_all add: wf_state_def)
  from m show l: "enq e ! qbegin (active e) < gn (eg e)" unfolding se by simp
  from m have "infected e ! (enq e ! qbegin (active e)) \<noteq> 0" unfolding se by simp
  with nn l show "1 \<le> infected e ! (enq e ! qbegin (active e))" by force
  from wf lt have "wf_state (deq e)"
    by (simp add: wf_state_def)
  with b show "base_inv (deq e)" by (simp add: base_inv_def)
qed

lemma run_node_unfold:
  assumes b: "base_inv e" and ne: "\<not> queue_empty (active e)"
  shows "run_node rm rnd (e, k) =
     (let u = enq e ! qbegin (active e); t = infected e ! u in
        if stop_criterion e = MaxTime \<and> bound e < t then Inr (Return (deq e, k))
        else spread rm rnd u t (links (eg e) ! u) (deq e, k))"
proof -
  from b have wf: "wf_state e" by (simp add: base_inv_def)
  note h = head_facts[OF b ne]
  from wf h(4) have "enq e ! qbegin (active e) < length (infected e)"
    "enq e ! qbegin (active e) < length (links (eg e))"
    by (simp_all add: wf_state_def wf_graph_def)
  then show ?thesis
    by (simp add: queue_get_ok[OF wf ne] h(2) Let_def deq_def)
qed

lemma run_node_base:
  assumes b: "base_inv e" and ne: "\<not> queue_empty (active e)"
  shows "ok (run_node rm rnd (e, k))
           (\<lambda>s'. base_inv (fst s') \<and> grows (deq e) (fst s'))
           (\<lambda>s'. base_inv (fst s') \<and> grows (deq e) (fst s'))"
proof -
  note h = head_facts[OF b ne]
  from b have "wf_graph (eg e)" by (simp add: base_inv_def wf_state_def)
  from links_in_range[OF this h(4)]
  have lr: "\<forall>v \<in> set (links (eg e) ! (enq e ! qbegin (active e))). v < gn (eg (deq e))"
    by simp
  from h(5) have t0: "0 \<le> infected e ! (enq e ! qbegin (active e))" by simp
  show ?thesis
    unfolding run_node_unfold[OF b ne] Let_def
    using spread_base[OF h(6) lr t0] h(6) by (simp add: grows_refl)
qed

lemma pass_rule:
  assumes b: "base_inv e" and ne: "\<not> queue_empty (active e)"
    and u: "u = enq e ! qbegin (active e)" and t: "t = infected e ! u"
    and X0: "X (deq e)"
    and step: "\<And>v e1 k1. base_inv e1 \<Longrightarrow> grows (deq e) e1 \<Longrightarrow> X e1
        \<Longrightarrow> v \<in> set (links (eg e) ! u) \<Longrightarrow> v < gn (eg e1)
        \<Longrightarrow> post (attempt rm rnd u t v (e1, k1)) (\<lambda>s'. X (fst s')) (\<lambda>s'. Y (fst s'))"
    and depth: "stop_criterion e = MaxTime \<Longrightarrow> bound e < t \<Longrightarrow> Y (deq e)"
  shows "ok (run_node rm rnd (e, k))
           (\<lambda>s'. base_inv (fst s') \<and> grows (deq e) (fst s') \<and> X (fst s'))
           (\<lambda>s'. base_inv (fst s') \<and> grows (deq e) (fst s') \<and> Y (fst s'))"
proof -
  note h = head_facts[OF b ne]
  from b have "wf_graph (eg e)" by (simp add: base_inv_def wf_state_def)
  from links_in_range[OF this h(4)] u
  have lr: "\<forall>v \<in> set (links (eg e) ! u). v < gn (eg e)" by simp
  from h(5) u t have t0: "0 \<le> t" by simp
  let ?I = "\<lambda>s' :: Epidemic \<times> nat. base_inv (fst s') \<and> grows (deq e) (fst s') \<and> X (fst s')"
  let ?Q = "\<lambda>s' :: Epidemic \<times> nat. base_inv (fst s') \<and> grows (deq e) (fst s') \<and> Y (fst s')"
  have sp: "ok (spread rm rnd u t (links (eg e) ! u) (deq e, k)) ?I ?Q"
  proof (rule spread_rule)
    show "?I (deq e, k)" using h(6) X0 by (simp add: grows_refl)
  next
    fix v and s :: "Epidemic \<times> nat"
    assume I: "?I s" and v: "v \<in> set (links (eg e) ! u)"
    obtain e1 k1 where s: "s = (e1, k1)" by (cases s)
    from I s have b1: "base_inv e1" and g1: "grows (deq e) e1" and x1: "X e1" by simp_all
    from g1 have ge: "eg e1 = eg e" by (simp add: grows_def)
    with lr v have v1: "v < gn (eg e1)" by simp
    have "ok (attempt rm rnd u t v (e1, k1))
            (\<lambda>s'. base_inv (fst s') \<and> grows (deq e) (fst s'))
            (\<lambda>s'. base_inv (fst s') \<and> grows (deq e) (fst s'))"
      by (rule ok_mono[OF attempt_base[OF b1 v1 t0]]) (auto intro: grows_trans[OF g1])
    from ok_post_conj[OF this step[OF b1 g1 x1 v v1]]
    show "ok (attempt rm rnd u t v s) ?I ?Q" unfolding s by (rule ok_mono) auto
  qed
  show ?thesis
  proof (cases "stop_criterion e = MaxTime \<and> bound e < t")
    case True
    then have "run_node rm rnd (e, k) = Inr (Return (deq e, k))"
      unfolding run_node_unfold[OF b ne] using u t by (simp add: Let_def)
    with h(6) depth True show ?thesis by (simp add: grows_refl)
  next
    case False
    then have "run_node rm rnd (e, k) = spread rm rnd u t (links (eg e) ! u) (deq e, k)"
      unfolding run_node_unfold[OF b ne] using u t by (auto simp: Let_def)
    with sp show ?thesis by simp
  qed
qed

lemma grows_facts:
  assumes g: "grows (deq e) e'" and b: "base_inv e"
  shows "qbegin (active e') = qbegin (active e) + 1"
    and "eg e' = eg e"
    and "\<And>w. w \<in> set (enq e) \<Longrightarrow> infected e' ! w = infected e ! w"
    and "\<And>i. i < qend (active e) \<Longrightarrow> enq e' ! i = enq e ! i"
    and "\<And>i. i \<le> qend (active e) \<Longrightarrow> take i (enq e') = take i (enq e)"
proof -
  from b have wf: "wf_state e" by (simp add: base_inv_def)
  from g show "qbegin (active e') = qbegin (active e) + 1" "eg e' = eg e"
    by (simp_all add: grows_def)
  from g have p: "prefix (enq e) (enq e')" by (simp add: grows_def)
  then obtain zs where z: "enq e' = enq e @ zs" by (auto elim: prefixE)
  show "infected e' ! w = infected e ! w" if "w \<in> set (enq e)" for w
    using enq_infected[OF wf that] g by (simp add: grows_def)
  show "enq e' ! i = enq e ! i" if "i < qend (active e)" for i
    using that enq_length[OF wf] by (simp add: z nth_append)
  show "take i (enq e') = take i (enq e)" if "i \<le> qend (active e)" for i
    using that enq_length[OF wf] by (simp add: z)
qed

lemma keeps_refl: "keeps e e"
  by (simp add: keeps_def)

lemma keeps_grows: "keeps e0 e \<Longrightarrow> grows (deq e) e' \<Longrightarrow> keeps e0 e'"
  by (simp add: keeps_def grows_def)

subsection \<open>Construction\<close>

lemma seeds_okD:
  assumes "seeds_ok gr ic"
  shows "distinct (ic_infected ic)" "\<forall>s \<in> set (ic_infected ic). 0 \<le> s \<and> s < int (gn gr)"
  using assms by (simp_all add: seeds_ok_def list_all_iff)

lemma seed_loop_ok:
  assumes "wf_state e" "distinct ss"
    and "\<forall>s \<in> set ss. 0 \<le> s \<and> s < int (gn (eg e)) \<and> infected e ! nat s = 0"
  shows "\<exists>e'. seed_loop ss e = Inr e' \<and> wf_state e' \<and> enq e' = enq e @ map nat ss
           \<and> e' = e\<lparr>infected := infected e', active := active e'\<rparr>
           \<and> qbegin (active e') = qbegin (active e)
           \<and> (\<forall>v < gn (eg e). infected e' ! v = (if int v \<in> set ss then 1 else infected e ! v))"
  using assms
proof (induction ss arbitrary: e)
  case Nil
  then show ?case by simp
next
  case (Cons s ss)
  let ?v = "nat s"
  let ?q = "(active e)\<lparr>qnodes := (qnodes (active e))[qend (active e) := ?v],
                         qend := qend (active e) + 1\<rparr>"
  let ?e1 = "e\<lparr>active := ?q, infected := (infected e)[?v := 1]\<rparr>"
  from Cons.prems have s: "0 \<le> s" "s < int (gn (eg e))" and z: "infected e ! ?v = 0"
    by simp_all
  then have v: "?v < gn (eg e)" by simp
  from Cons.prems(1) have li: "length (infected e) = gn (eg e)" by (simp add: wf_state_def)
  have w1: "wf_state ?e1"
    by (rule wf_state_infect[OF Cons.prems(1) v z, of 0]) simp_all
  have en1: "enq ?e1 = enq e @ [?v]"
    using wf_state_room[OF Cons.prems(1) v z] Cons.prems(1)
    by (intro enq_infect) (simp_all add: wf_state_def)
  have rest: "\<forall>x \<in> set ss. 0 \<le> x \<and> x < int (gn (eg ?e1)) \<and> infected ?e1 ! nat x = 0"
  proof
    fix x assume x: "x \<in> set ss"
    with Cons.prems have a: "0 \<le> x" "x < int (gn (eg e))" "infected e ! nat x = 0" "x \<noteq> s"
      by auto
    with s have "nat x \<noteq> ?v" by simp
    with a show "0 \<le> x \<and> x < int (gn (eg ?e1)) \<and> infected ?e1 ! nat x = 0" by simp
  qed
  from Cons.prems(2) have d: "distinct ss" by simp
  from Cons.IH[OF w1 d rest] obtain e' where
    r: "seed_loop ss ?e1 = Inr e'" "wf_state e'" "enq e' = enq ?e1 @ map nat ss"
       "e' = ?e1\<lparr>infected := infected e', active := active e'\<rparr>"
       "qbegin (active e') = qbegin (active ?e1)"
       "\<forall>v < gn (eg ?e1). infected e' ! v = (if int v \<in> set ss then 1 else infected ?e1 ! v)"
    by blast
  have "seed_loop (s # ss) e = Inr e'"
    using r(1) s li by (simp add: queue_add_ok[OF Cons.prems(1) v z])
  moreover have "enq e' = enq e @ map nat (s # ss)" using r(3) en1 by simp
  moreover have "e' = e\<lparr>infected := infected e', active := active e'\<rparr>"
    using r(4) by simp
  moreover have "qbegin (active e') = qbegin (active e)" using r(5) by simp
  moreover have "\<forall>w < gn (eg e). infected e' ! w = (if int w \<in> set (s # ss) then 1 else infected e ! w)"
  proof (intro allI impI)
    fix w assume w: "w < gn (eg e)"
    with r(6) have i: "infected e' ! w = (if int w \<in> set ss then 1 else infected ?e1 ! w)"
      by simp
    show "infected e' ! w = (if int w \<in> set (s # ss) then 1 else infected e ! w)"
    proof (cases "int w = s")
      case True
      then have "w = ?v" by simp
      with i li v show ?thesis using True by simp
    next
      case False
      with s have "w \<noteq> ?v" by auto
      with i False show ?thesis by simp
    qed
  qed
  ultimately show ?case using r(2) by blast
qed

lemma epidemic_new_ok:
  assumes g: "wf_graph gr" and d: "distinct (ic_infected ic)"
    and r: "\<forall>s \<in> set (ic_infected ic). 0 \<le> s \<and> s < int (gn gr)"
  shows "\<exists>e0. epidemic_new p gr ic out = Inr e0 \<and> base_inv e0 \<and> eg e0 = gr
           \<and> enq e0 = map nat (ic_infected ic) \<and> qbegin (active e0) = 0
           \<and> (\<forall>v < gn gr. infected e0 ! v = (if int v \<in> set (ic_infected ic) then 1 else 0))
           \<and> eid e0 = ic_id ic \<and> et e0 = 1 \<and> num_infected e0 = int (length (ic_infected ic))
           \<and> cascade_links e0 = 0 \<and> bound e0 = ic_bound ic
           \<and> stop_criterion e0 = ic_stop_criterion ic \<and> ep e0 = p \<and> eoutput e0 = out"
proof -
  let ?e = "\<lparr>eid = ic_id ic, et = 1, num_infected = int (length (ic_infected ic)),
        cascade_links = 0, bound = ic_bound ic, stop_criterion = ic_stop_criterion ic,
        ep = p, eg = gr, eoutput = out, infected = replicate (gn gr) 0,
        active = queue_new (gn gr)\<rparr>"
  have en: "enq ?e = []" by (simp add: enq_def queue_new_def)
  have wf: "wf_state ?e" using g by (simp add: wf_state_def en) (simp add: queue_new_def)
  have z: "\<forall>s \<in> set (ic_infected ic). 0 \<le> s \<and> s < int (gn (eg ?e)) \<and> infected ?e ! nat s = 0"
    using r by auto
  from seed_loop_ok[OF wf d z] obtain e' where
    r: "seed_loop (ic_infected ic) ?e = Inr e'" "wf_state e'" "enq e' = enq ?e @ map nat (ic_infected ic)"
       "e' = ?e\<lparr>infected := infected e', active := active e'\<rparr>"
       "qbegin (active e') = qbegin (active ?e)"
       "\<forall>v < gn (eg ?e). infected e' ! v = (if int v \<in> set (ic_infected ic) then 1 else infected ?e ! v)"
    by blast
  have f: "eid e' = ic_id ic" "et e' = 1" "num_infected e' = int (length (ic_infected ic))"
     "cascade_links e' = 0" "bound e' = ic_bound ic" "stop_criterion e' = ic_stop_criterion ic"
     "ep e' = p" "eoutput e' = out" "eg e' = gr"
    by (subst r(4), simp)+
  from r(2) have "length (enq e') = qend (active e')" by (simp add: wf_state_def enq_def)
  with r(3) en have "qend (active e') = length (ic_infected ic)" by simp
  with r(2) f(3) have b: "base_inv e'" by (simp add: base_inv_def)
  have i: "\<forall>v < gn gr. infected e' ! v = (if int v \<in> set (ic_infected ic) then 1 else 0)"
    using r(6) by simp
  have q: "qbegin (active e') = 0" using r(5) by (simp add: queue_new_def)
  have "epidemic_new p gr ic out = Inr e'" using r(1) by (simp add: epidemic_new_def)
  with b f i q r(3) en show ?thesis by simp
qed


subsection \<open>The whole run\<close>

text \<open>The run returns from every state that satisfies the base invariant: each pass moves
  \<open>begin\<close> forward, and \<open>begin\<close> is at most \<open>n\<close>.\<close>

lemma observable_base:
  assumes "observable rm rnd s0 s" "base_inv (fst s0)"
  shows "base_inv (fst s) \<and> eg (fst s) = eg (fst s0)"
  using assms
proof (induction rule: observable.induct)
  case obs_start
  then show ?case by simp
next
  case (obs_next s s')
  then have b: "base_inv (fst s)" and g: "eg (fst s) = eg (fst s0)" by simp_all
  obtain e k where s: "s = (e, k)" by (cases s)
  from run_node_base[where e=e and k=k and rm=rm and rnd=rnd] b obs_next.hyps s
  have "base_inv (fst s') \<and> grows (deq e) (fst s')" by simp
  with g s show ?case by (simp add: grows_def)
next
  case (obs_return s s')
  then have b: "base_inv (fst s)" and g: "eg (fst s) = eg (fst s0)" by simp_all
  obtain e k where s: "s = (e, k)" by (cases s)
  from run_node_base[where e=e and k=k and rm=rm and rnd=rnd] b obs_return.hyps s
  have "base_inv (fst s') \<and> grows (deq e) (fst s')" by simp
  with g s show ?case by (simp add: grows_def)
qed

lemma run_base:
  assumes "base_inv (fst s0)"
  shows "\<exists>r. epidemic_run rm rnd s0 = Some (Inr r) \<and> observable rm rnd s0 r"
proof -
  let ?I = "\<lambda>s. base_inv (fst s) \<and> observable rm rnd s0 s"
  let ?m = "\<lambda>s :: Epidemic \<times> nat. gn (eg (fst s)) - qbegin (active (fst s))"
  have "\<exists>r. epidemic_run rm rnd s0 = Some (Inr r) \<and> observable rm rnd s0 r"
  proof (rule run_rule[where I = ?I and m = ?m])
    show "?I s0" using assms by (simp add: obs_start)
  next
    fix s assume I: "?I s" and ne: "\<not> queue_empty (active (fst s))"
    obtain e k where s: "s = (e, k)" by (cases s)
    from I s have b: "base_inv e" by simp
    from ne s have ne': "\<not> queue_empty (active e)" by simp
    from head_facts(1)[OF b ne'] b have lt: "qbegin (active e) < gn (eg e)"
      by (simp add: base_inv_def wf_state_def)
    have "ok (run_node rm rnd s) (\<lambda>s'. base_inv (fst s') \<and> grows (deq e) (fst s'))
            (\<lambda>s'. base_inv (fst s') \<and> grows (deq e) (fst s'))"
      unfolding s by (rule run_node_base[OF b ne'])
    then show "ok (run_node rm rnd s) (\<lambda>s'. ?I s' \<and> ?m s' < ?m s) (observable rm rnd s0)"
    proof (cases "run_node rm rnd s")
      case (Inl err)
      then show ?thesis using \<open>ok (run_node rm rnd s) _ _\<close> by simp
    next
      case (Inr c)
      assume o: "ok (run_node rm rnd s) (\<lambda>s'. base_inv (fst s') \<and> grows (deq e) (fst s'))
            (\<lambda>s'. base_inv (fst s') \<and> grows (deq e) (fst s'))"
      show ?thesis
      proof (cases c)
        case (Next s')
        with o Inr have "base_inv (fst s')" and g: "grows (deq e) (fst s')" by simp_all
        moreover have "observable rm rnd s0 s'"
          using I ne Inr Next by (auto intro: obs_next)
        moreover have "?m s' < ?m s" using g lt s by (simp add: grows_def)
        ultimately show ?thesis using Inr Next by simp
      next
        case (Return s')
        have "observable rm rnd s0 s'"
          using I ne Inr Return by (auto intro: obs_return)
        then show ?thesis using Inr Return by simp
      qed
    qed
  next
    fix s assume "?I s" "queue_empty (active (fst s))"
    then show "observable rm rnd s0 s" by simp
  qed
  then show ?thesis .
qed

lemma base_inv_count:
  assumes "base_inv e"
  shows "num_infected e = int (card {v. v < gn (eg e) \<and> 0 < infected e ! v})"
proof -
  from assms have wf: "wf_state e" and n: "num_infected e = int (qend (active e))"
    by (simp_all add: base_inv_def)
  from wf have "\<forall>v < gn (eg e). 0 \<le> infected e ! v" by (simp add: wf_state_def)
  then have "{v. v < gn (eg e) \<and> 0 < infected e ! v} = {v. v < gn (eg e) \<and> infected e ! v \<noteq> 0}"
    by force
  with wf_state_card[OF wf] n show ?thesis by simp
qed

lemma passes_inv:
  assumes "passes rm rnd s0 ts c" and "Inv [] s0"
    and step: "\<And>ts s u q c. Inv ts s \<Longrightarrow> \<not> queue_empty (active (fst s))
        \<Longrightarrow> queue_get (active (fst s)) = Inr (u, q) \<Longrightarrow> run_node rm rnd s = Inr c
        \<Longrightarrow> (case c of Next s' \<Rightarrow> Inv (ts @ [infected (fst s) ! u]) s'
                        | Return s' \<Rightarrow> Fin (ts @ [infected (fst s) ! u]) s')"
  shows "case c of Next s \<Rightarrow> Inv ts s | Return s \<Rightarrow> Fin ts s"
  using assms(1)
proof (induction rule: passes.induct)
  case passes_start
  then show ?case using assms(2) by simp
next
  case (passes_step ts s u q c)
  from passes_step.IH have "Inv ts s" by simp
  from step[OF this passes_step.hyps(2-4)] show ?case .
qed

lemma passes_observable:
  "passes rm rnd s0 ts c \<Longrightarrow> observable rm rnd s0 (state_of c)"
proof (induction rule: passes.induct)
  case passes_start
  then show ?case by (simp add: obs_start)
next
  case (passes_step ts s u q c)
  then show ?case by (cases c) (auto intro: obs_next obs_return)
qed

lemma run_total:
  assumes "base_inv (fst s0)"
  shows "\<exists>r ts c. epidemic_run rm rnd s0 = Some (Inr r) \<and> passes rm rnd s0 ts c
           \<and> state_of c = r \<and> (c = Next r \<longrightarrow> queue_empty (active (fst r)))"
proof -
  let ?I = "\<lambda>s. base_inv (fst s) \<and> (\<exists>ts. passes rm rnd s0 ts (Next s))"
  let ?Q = "\<lambda>r. \<exists>ts c. passes rm rnd s0 ts c \<and> state_of c = r
                \<and> (c = Next r \<longrightarrow> queue_empty (active (fst r)))"
  let ?m = "\<lambda>s :: Epidemic \<times> nat. gn (eg (fst s)) - qbegin (active (fst s))"
  have "\<exists>r. epidemic_run rm rnd s0 = Some (Inr r) \<and> ?Q r"
  proof (rule run_rule[where I = ?I and m = ?m])
    show "?I s0" using assms passes_start by blast
  next
    fix s assume I: "?I s" and ne: "\<not> queue_empty (active (fst s))"
    obtain e k where s: "s = (e, k)" by (cases s)
    from I s have b: "base_inv e" by simp
    from I obtain ts where p: "passes rm rnd s0 ts (Next s)" by blast
    from ne s have ne': "\<not> queue_empty (active e)" by simp
    from head_facts(1)[OF b ne'] b have lt: "qbegin (active e) < gn (eg e)"
      by (simp add: base_inv_def wf_state_def)
    from b have wf: "wf_state e" by (simp add: base_inv_def)
    have qg: "queue_get (active (fst s)) = Inr (qnodes (active e) ! qbegin (active e),
                (active e)\<lparr>qbegin := qbegin (active e) + 1\<rparr>)"
      using queue_get_ok[OF wf ne'] s by simp
    have o: "ok (run_node rm rnd s) (\<lambda>s'. base_inv (fst s') \<and> grows (deq e) (fst s'))
            (\<lambda>s'. base_inv (fst s') \<and> grows (deq e) (fst s'))"
      unfolding s by (rule run_node_base[OF b ne'])
    from o show "ok (run_node rm rnd s) (\<lambda>s'. ?I s' \<and> ?m s' < ?m s) ?Q"
    proof (cases rule: ok_cases)
      case (1 s')
      from passes_step[OF p ne qg 1(1)] have "\<exists>ts. passes rm rnd s0 ts (Next s')" by blast
      moreover have "?m s' < ?m s" using 1(2) lt s by (simp add: grows_def)
      ultimately show ?thesis using 1 by simp
    next
      case (2 s')
      from passes_step[OF p ne qg 2(1)]
      have "\<exists>ts c. passes rm rnd s0 ts c \<and> state_of c = s'
                \<and> (c = Next s' \<longrightarrow> queue_empty (active (fst s')))"
        by (intro exI[of _ "Return s'"] exI conjI) auto
      then show ?thesis using 2 by simp
    qed
  next
    fix s assume "?I s" "queue_empty (active (fst s))"
    then show "?Q s" by (auto intro!: exI[of _ "Next s"])
  qed
  then show ?thesis by blast
qed

lemma run_maxsize:
  assumes "\<not> queue_empty (active e0)" "queue_get (active e0) = Inr (u, q0)"
    "u < length (infected e0)" "u < length (links (eg e0))"
    "links (eg e0) ! u = vs1 @ v # vs2"
    "spread rm rnd u (infected e0 ! u) vs1 (e0\<lparr>active := q0\<rparr>, k0) = Inr (Next (e, k))"
    "stop_criterion e0 = NumInfected"
    "stop_criterion e = NumInfected" "trial rm (ep e) (rnd k)"
    "v < length (infected e)" "infected e ! v = 0" "queue_add (active e) v = Inr q"
    "bound e = num_infected e + 1"
  shows "epidemic_run rm rnd (e0, k0) = Some (Inr (infect u (infected e0 ! u) v q e, Suc k))"
proof -
  have "spread rm rnd u (infected e0 ! u) (vs1 @ v # vs2) (e0\<lparr>active := q0\<rparr>, k0)
          = Inr (Return (infect u (infected e0 ! u) v q e, Suc k))"
    unfolding spread_append
    using assms(6) attempt_maxsize[where rnd = rnd and k = k and rm = rm, OF assms(8-13)]
    by simp
  then have "run_node rm rnd (e0, k0) = Inr (Return (infect u (infected e0 ! u) v q e, Suc k))"
    using assms(2-5,7) by simp
  then show ?thesis using assms(1) by (subst epidemic_run.simps) simp
qed

subsection \<open>The size criterion, once passed\<close>

lemma attempt_size_passed:
  assumes "size_passed e"
  shows "post (attempt rm rnd u t v (e, k)) (\<lambda>s'. size_passed (fst s')) (\<lambda>s'. False)"
  using assms by (simp add: size_passed_def Let_def split: sum.splits)

lemma pass_size_passed:
  assumes b: "base_inv e" and ne: "\<not> queue_empty (active e)" and j: "size_passed e"
  shows "ok (run_node rm rnd (e, k))
           (\<lambda>s'. base_inv (fst s') \<and> size_passed (fst s')) (\<lambda>s'. False)"
proof -
  have "ok (run_node rm rnd (e, k))
           (\<lambda>s'. base_inv (fst s') \<and> grows (deq e) (fst s') \<and> size_passed (fst s'))
           (\<lambda>s'. base_inv (fst s') \<and> grows (deq e) (fst s') \<and> False)"
  proof (rule pass_rule[OF b ne refl refl, where X = size_passed and Y = "\<lambda>_. False"])
    show "size_passed (deq e)" using j by (simp add: size_passed_def)
  next
    fix v e1 k1 assume "size_passed e1"
    then show "post (attempt rm rnd (enq e ! qbegin (active e))
                 (infected e ! (enq e ! qbegin (active e))) v (e1, k1))
               (\<lambda>s'. size_passed (fst s')) (\<lambda>s'. False)"
      by (rule attempt_size_passed)
  next
    assume "stop_criterion e = MaxTime"
    with j show False by (simp add: size_passed_def)
  qed
  then show ?thesis by (rule ok_mono) auto
qed

subsection \<open>Breadth-first order\<close>

lemma attempt_ordered:
  assumes wf: "wf_state e" and v: "v < gn (eg e)"
    and o: "ordered_at t e" and f: "fresh_from t j e"
  shows "post (attempt rm rnd u t v (e, k))
           (\<lambda>s'. ordered_at t (fst s') \<and> fresh_from t j (fst s'))
           (\<lambda>s'. ordered_at t (fst s') \<and> fresh_from t j (fst s'))"
  using wf v
proof (cases rule: attempt_cases[where rm = rm and rnd = rnd and k = k and u = u and t = t])
  case fail
  with o f show ?thesis by simp
next
  case first
  let ?e' = "infect u t v (pushed v e) e"
  from wf have li: "length (infected e) = gn (eg e)" by (simp add: wf_state_def)
  have en: "enq ?e' = enq e @ [v]" by (rule enq_pushed[OF wf v first(2)])
  have inf: "infected ?e' = (infected e)[v := t + 1]" by (simp add: infect_def)
  have vn: "v \<notin> set (enq e)" using enq_infected[OF wf] first(2) by blast
  have same: "infected ?e' ! w = infected e ! w" if "w \<in> set (enq e)" for w
  proof -
    from that vn have "v \<noteq> w" by blast
    then show ?thesis by (simp add: inf)
  qed
  have vv: "infected ?e' ! v = t + 1" using v li by (simp add: inf)
  have m: "map (\<lambda>w. infected ?e' ! w) (enq e) = map (\<lambda>w. infected e ! w) (enq e)"
    using same by simp
  have o': "ordered_at t ?e'"
    using o vv same by (auto simp: ordered_at_def en m sorted_append)
  have qe: "qend (active ?e') = qend (active e) + 1" by (simp add: infect_def pushed_def)
  have f': "fresh_from t j ?e'"
    unfolding fresh_from_def
  proof (intro conjI allI impI)
    show "j \<le> qend (active ?e')" using f by (simp add: qe fresh_from_def)
  next
    fix i assume i: "j \<le> i \<and> i < qend (active ?e')"
    then have "enq ?e' ! i = qnodes (active ?e') ! i" by (simp add: enq_nth)
    moreover have "infected ?e' ! (enq ?e' ! i) = t + 1"
    proof (cases "i < qend (active e)")
      case True
      then have a: "enq ?e' ! i = enq e ! i" using enq_length[OF wf] by (simp add: en nth_append)
      from True enq_length[OF wf] have "enq e ! i \<in> set (enq e)" by simp
      from same[OF this] f i True show ?thesis by (simp add: a fresh_from_def enq_nth)
    next
      case False
      with i qe have "i = qend (active e)" by simp
      then have "enq ?e' ! i = v"
        using enq_length[OF wf] nth_append_length[of "enq e" v "[]"] by (simp add: en)
      with vv show ?thesis by simp
    qed
    ultimately show "infected ?e' ! (qnodes (active ?e') ! i) = t + 1" by simp
  qed
  from o' f' first(3) show ?thesis by simp
next
  case known
  have "ordered_at t (e\<lparr>cascade_links := c, eoutput := x\<rparr>)" for c x
    using o by (simp add: ordered_at_def enq_def)
  moreover have "fresh_from t j (e\<lparr>cascade_links := c, eoutput := x\<rparr>)" for c x
    using f by (simp add: fresh_from_def)
  ultimately show ?thesis using known(3) by simp
qed

lemma pass_ordered:
  assumes b: "base_inv e" and ne: "\<not> queue_empty (active e)" and o: "ordered e"
    and t: "t = infected e ! (enq e ! qbegin (active e))"
  shows "ok (run_node rm rnd (e, k))
           (\<lambda>s'. base_inv (fst s') \<and> grows (deq e) (fst s') \<and> ordered (fst s')
                 \<and> fresh_from t (qend (active e)) (fst s'))
           (\<lambda>s'. base_inv (fst s') \<and> grows (deq e) (fst s')
                 \<and> sorted (map (\<lambda>v. infected (fst s') ! v) (enq (fst s')))
                 \<and> fresh_from t (qend (active e)) (fst s'))"
proof -
  let ?u = "enq e ! qbegin (active e)"
  let ?X = "\<lambda>e1. ordered_at t e1 \<and> fresh_from t (qend (active e)) e1"
  note h = head_facts[OF b ne]
  from b have wf: "wf_state e" by (simp add: base_inv_def)
  have x0: "?X (deq e)"
    using o h(1) t by (simp add: ordered_def ordered_at_def fresh_from_def)
  have "ok (run_node rm rnd (e, k))
           (\<lambda>s'. base_inv (fst s') \<and> grows (deq e) (fst s') \<and> ?X (fst s'))
           (\<lambda>s'. base_inv (fst s') \<and> grows (deq e) (fst s') \<and> ?X (fst s'))"
  proof (rule pass_rule[OF b ne refl t, where X = ?X and Y = ?X])
    show "?X (deq e)" by (rule x0)
  next
    fix v e1 k1
    assume "base_inv e1" "?X e1" "v < gn (eg e1)"
    then show "post (attempt rm rnd ?u t v (e1, k1)) (\<lambda>s'. ?X (fst s')) (\<lambda>s'. ?X (fst s'))"
      by (intro attempt_ordered) (simp_all add: base_inv_def)
  next
    show "?X (deq e)" by (rule x0)
  qed
  then show ?thesis
  proof (rule ok_mono)
    fix s' :: "Epidemic \<times> nat"
    assume a: "base_inv (fst s') \<and> grows (deq e) (fst s') \<and> ?X (fst s')"
    then have b': "base_inv (fst s')" and g: "grows (deq e) (fst s')"
      and oa: "ordered_at t (fst s')" by simp_all
    note gf = grows_facts[OF g b]
    from b' have wf': "wf_state (fst s')" by (simp add: base_inv_def)
    have "ordered (fst s')"
      unfolding ordered_def
    proof (intro conjI impI ballI)
      show "sorted (map (\<lambda>v. infected (fst s') ! v) (enq (fst s')))"
        using oa by (simp add: ordered_at_def)
    next
      fix v
      assume lt: "qbegin (active (fst s')) < qend (active (fst s'))"
        and v: "v \<in> set (enq (fst s'))"
      let ?xs = "map (\<lambda>v. infected (fst s') ! v) (enq (fst s'))"
      from oa have so: "sorted ?xs" by (simp add: ordered_at_def)
      from lt gf(1) enq_length[OF wf']
      have i: "Suc (qbegin (active e)) < length ?xs" by simp
      from sorted_nth_mono[OF so _ i, of "qbegin (active e)"] i
      have "infected (fst s') ! (enq (fst s') ! qbegin (active e))
              \<le> infected (fst s') ! (enq (fst s') ! Suc (qbegin (active e)))"
        by simp
      moreover have "infected (fst s') ! (enq (fst s') ! qbegin (active e)) = t"
        using gf(4)[OF h(1)] gf(3)[OF h(3)] t by simp
      moreover from oa v have "infected (fst s') ! v \<le> t + 1" by (simp add: ordered_at_def)
      ultimately show "infected (fst s') ! v
          \<le> infected (fst s') ! (enq (fst s') ! qbegin (active (fst s'))) + 1"
        using gf(1) by simp
    qed
    with a show "base_inv (fst s') \<and> grows (deq e) (fst s') \<and> ordered (fst s')
                 \<and> fresh_from t (qend (active e)) (fst s')" by simp
  next
    fix s' :: "Epidemic \<times> nat"
    assume "base_inv (fst s') \<and> grows (deq e) (fst s') \<and> ?X (fst s')"
    then show "base_inv (fst s') \<and> grows (deq e) (fst s')
                 \<and> sorted (map (\<lambda>v. infected (fst s') ! v) (enq (fst s')))
                 \<and> fresh_from t (qend (active e)) (fst s')"
      by (simp add: ordered_at_def)
  qed
qed

lemma pass_ordered_at:
  assumes b: "base_inv e" and ne: "\<not> queue_empty (active e)" and o: "ordered e"
    and t: "t = infected e ! (enq e ! qbegin (active e))"
  shows "ok (run_node rm rnd (e, k))
           (\<lambda>s'. base_inv (fst s') \<and> grows (deq e) (fst s') \<and> ordered_at t (fst s'))
           (\<lambda>s'. base_inv (fst s') \<and> grows (deq e) (fst s') \<and> ordered_at t (fst s'))"
proof -
  let ?u = "enq e ! qbegin (active e)"
  let ?X = "\<lambda>e1. ordered_at t e1 \<and> fresh_from t (qend (active e)) e1"
  note h = head_facts[OF b ne]
  have x0: "?X (deq e)"
    using o h(1) t by (simp add: ordered_def ordered_at_def fresh_from_def)
  have "ok (run_node rm rnd (e, k))
           (\<lambda>s'. base_inv (fst s') \<and> grows (deq e) (fst s') \<and> ?X (fst s'))
           (\<lambda>s'. base_inv (fst s') \<and> grows (deq e) (fst s') \<and> ?X (fst s'))"
  proof (rule pass_rule[OF b ne refl t, where X = ?X and Y = ?X])
    show "?X (deq e)" by (rule x0)
  next
    fix v e1 k1
    assume "base_inv e1" "?X e1" "v < gn (eg e1)"
    then show "post (attempt rm rnd ?u t v (e1, k1)) (\<lambda>s'. ?X (fst s')) (\<lambda>s'. ?X (fst s'))"
      by (intro attempt_ordered) (simp_all add: base_inv_def)
  next
    show "?X (deq e)" by (rule x0)
  qed
  then show ?thesis by (rule ok_mono) simp_all
qed

lemma log_step:
  assumes g: "grows (deq e) e'" and b: "base_inv e" and ne: "\<not> queue_empty (active e)"
  shows "map (\<lambda>v. infected e' ! v) (take (qbegin (active e')) (enq e'))
           = map (\<lambda>v. infected e ! v) (take (qbegin (active e)) (enq e))
             @ [infected e ! (enq e ! qbegin (active e))]"
proof -
  note gf = grows_facts[OF g b] and h = head_facts[OF b ne]
  from b have wf: "wf_state e" by (simp add: base_inv_def)
  from h(1) have "take (qbegin (active e')) (enq e') = take (Suc (qbegin (active e))) (enq e)"
    using gf(5)[of "Suc (qbegin (active e))"] gf(1) by simp
  also have "\<dots> = take (qbegin (active e)) (enq e) @ [enq e ! qbegin (active e)]"
    using h(1) enq_length[OF wf] by (simp add: take_Suc_conv_app_nth)
  finally have tk: "take (qbegin (active e')) (enq e')
      = take (qbegin (active e)) (enq e) @ [enq e ! qbegin (active e)]" .
  have "infected e' ! w = infected e ! w" if "w \<in> set (take (qbegin (active e)) (enq e))" for w
    using gf(3) that by (meson in_set_takeD)
  then show ?thesis using gf(3)[OF h(3)] by (simp add: tk)
qed

lemma epidemic_new_ordered:
  assumes "base_inv e0" "\<forall>v < gn (eg e0). infected e0 ! v = (if int v \<in> S then 1 else 0)"
  shows "ordered e0"
proof -
  from assms(1) have wf: "wf_state e0" by (simp add: base_inv_def)
  have one: "infected e0 ! w = 1" if "w \<in> set (enq e0)" for w
    using enq_infected[OF wf that] assms(2) by (auto split: if_splits)
  then have "map (\<lambda>v. infected e0 ! v) (enq e0) = replicate (length (enq e0)) 1"
    by (simp add: map_replicate_const[symmetric])
  then have "sorted (map (\<lambda>v. infected e0 ! v) (enq e0))" by (simp add: sorted_replicate)
  moreover have "infected e0 ! v \<le> infected e0 ! (enq e0 ! qbegin (active e0)) + 1"
    if "qbegin (active e0) < qend (active e0)" "v \<in> set (enq e0)" for v
  proof -
    from that(1) enq_length[OF wf] have "enq e0 ! qbegin (active e0) \<in> set (enq e0)" by simp
    from one[OF this] one[OF that(2)] show ?thesis by simp
  qed
  ultimately show ?thesis by (simp add: ordered_def)
qed

lemma passes_ordered:
  assumes p: "passes rm rnd (e0, k0) ts c" and b0: "base_inv e0" and o0: "ordered e0"
    and q0: "qbegin (active e0) = 0"
  shows "case c of
           Next s \<Rightarrow> base_inv (fst s) \<and> ordered (fst s)
             \<and> ts = map (\<lambda>v. infected (fst s) ! v) (take (qbegin (active (fst s))) (enq (fst s)))
         | Return s \<Rightarrow> base_inv (fst s)
             \<and> sorted (map (\<lambda>v. infected (fst s) ! v) (enq (fst s)))
             \<and> ts = map (\<lambda>v. infected (fst s) ! v) (take (qbegin (active (fst s))) (enq (fst s)))"
  using p
proof (rule passes_inv)
  show "base_inv (fst (e0, k0)) \<and> ordered (fst (e0, k0))
      \<and> [] = map (\<lambda>v. infected (fst (e0, k0)) ! v)
               (take (qbegin (active (fst (e0, k0)))) (enq (fst (e0, k0))))"
    using b0 o0 q0 by simp
next
  fix ts s u q c
  assume i: "base_inv (fst s) \<and> ordered (fst s)
      \<and> ts = map (\<lambda>v. infected (fst s) ! v) (take (qbegin (active (fst s))) (enq (fst s)))"
    and ne: "\<not> queue_empty (active (fst s))"
    and qg: "queue_get (active (fst s)) = Inr (u, q)"
    and r: "run_node rm rnd s = Inr c"
  obtain e k where s: "s = (e, k)" by (cases s)
  from i s have b: "base_inv e" and o: "ordered e"
    and l: "ts = map (\<lambda>v. infected e ! v) (take (qbegin (active e)) (enq e))" by simp_all
  from ne s have ne': "\<not> queue_empty (active e)" by simp
  from b have wf: "wf_state e" by (simp add: base_inv_def)
  from qg s queue_get_ok[OF wf ne'] head_facts(2)[OF b ne']
  have u: "u = enq e ! qbegin (active e)" by simp
  from pass_ordered[OF b ne' o refl, of rm rnd k] r s
  have k: "case c of
      Next s' \<Rightarrow> base_inv (fst s') \<and> grows (deq e) (fst s') \<and> ordered (fst s')
    | Return s' \<Rightarrow> base_inv (fst s') \<and> grows (deq e) (fst s')
        \<and> sorted (map (\<lambda>v. infected (fst s') ! v) (enq (fst s')))"
    by (cases c) simp_all
  show "case c of
           Next s' \<Rightarrow> base_inv (fst s') \<and> ordered (fst s')
             \<and> ts @ [infected (fst s) ! u]
               = map (\<lambda>v. infected (fst s') ! v) (take (qbegin (active (fst s'))) (enq (fst s')))
         | Return s' \<Rightarrow> base_inv (fst s')
             \<and> sorted (map (\<lambda>v. infected (fst s') ! v) (enq (fst s')))
             \<and> ts @ [infected (fst s) ! u]
               = map (\<lambda>v. infected (fst s') ! v) (take (qbegin (active (fst s'))) (enq (fst s')))"
  proof (cases c)
    case (Next s')
    with k have "grows (deq e) (fst s')" by simp
    from log_step[OF this b ne'] k Next l u s show ?thesis by simp
  next
    case (Return s')
    with k have "grows (deq e) (fst s')" by simp
    from log_step[OF this b ne'] k Return l u s show ?thesis by simp
  qed
qed

lemma passes_sorted:
  assumes p: "passes rm rnd (e0, k0) ts c" and b0: "base_inv e0" and o0: "ordered e0"
    and q0: "qbegin (active e0) = 0"
  shows "sorted ts"
proof -
  have "sorted (map f (take j xs))" if "sorted (map f xs)" for f :: "nat \<Rightarrow> int" and j xs
    using sorted_wrt_take[OF that, of j] by (simp add: take_map)
  with passes_ordered[OF assms] show ?thesis
    by (cases c) (auto simp: ordered_def)
qed

subsection \<open>Coverage when every trial succeeds\<close>

lemma spread_covers:
  assumes "base_inv e" "stop_criterion e = MaxTime" "ep e = 1" "\<forall>k. rnd k \<le> rm"
    "\<forall>v \<in> set vs. v < gn (eg e)" "0 \<le> t"
  shows "ok (spread rm rnd u t vs (e, k))
           (\<lambda>s'. \<forall>w \<in> set vs. infected (fst s') ! w \<noteq> 0) (\<lambda>s'. False)"
  using assms(1,2,3,5)
proof (induction vs arbitrary: e k)
  case Nil
  then show ?case by simp
next
  case (Cons v vs)
  from Cons.prems have wf: "wf_state e" and v: "v < gn (eg e)"
    by (simp_all add: base_inv_def)
  from wf v have vl: "v < length (infected e)" by (simp add: wf_state_def)
  have tr: "trial rm (ep e) (rnd k)" using Cons.prems(3) assms(4) by (simp add: trial_one)
  have "\<exists>e2. attempt rm rnd u t v (e, k) = Inr (Next (e2, Suc k)) \<and> infected e2 ! v \<noteq> 0"
    using wf v
  proof (cases rule: attempt_cases[where rm = rm and rnd = rnd and k = k and u = u and t = t])
    case fail
    with tr show ?thesis by simp
  next
    case first
    have "infected (infect u t v (pushed v e) e) ! v = t + 1"
      using vl by (simp add: infect_def)
    with first(3) Cons.prems(2) assms(6) show ?thesis by simp
  next
    case known
    then show ?thesis by simp
  qed
  then obtain e2 where a: "attempt rm rnd u t v (e, k) = Inr (Next (e2, Suc k))"
    and nz: "infected e2 ! v \<noteq> 0" by blast
  from attempt_base[OF Cons.prems(1) v assms(6), of rm rnd u k] a
  have b2: "base_inv e2" and g2: "grows e e2" by simp_all
  from g2 Cons.prems have p2: "stop_criterion e2 = MaxTime" "ep e2 = 1"
    "\<forall>v \<in> set vs. v < gn (eg e2)" by (simp_all add: grows_def)
  have "ok (spread rm rnd u t vs (e2, Suc k))
          (\<lambda>s'. (base_inv (fst s') \<and> grows e2 (fst s')) \<and> (\<forall>w \<in> set vs. infected (fst s') ! w \<noteq> 0))
          (\<lambda>s'. (base_inv (fst s') \<and> grows e2 (fst s')) \<and> False)"
    by (rule ok_conj[OF spread_base[OF b2 p2(3) assms(6)] Cons.IH[OF b2 p2]])
  then have "ok (spread rm rnd u t vs (e2, Suc k))
          (\<lambda>s'. \<forall>w \<in> set (v # vs). infected (fst s') ! w \<noteq> 0) (\<lambda>s'. False)"
  proof (rule ok_mono)
    fix s' :: "Epidemic \<times> nat"
    assume c: "(base_inv (fst s') \<and> grows e2 (fst s')) \<and> (\<forall>w \<in> set vs. infected (fst s') ! w \<noteq> 0)"
    from g2 v have "v < gn (eg e2)" by (simp add: grows_def)
    with c nz have "infected (fst s') ! v \<noteq> 0" by (simp add: grows_def)
    with c show "\<forall>w \<in> set (v # vs). infected (fst s') ! w \<noteq> 0" by simp
  qed simp
  with a show ?case by simp
qed

lemma closed_covered_depth:
  assumes b: "base_inv e" and ne: "\<not> queue_empty (active e)" and o: "ordered e"
    and c: "closed e" and d: "bound e < infected e ! (enq e ! qbegin (active e))"
  shows "covered (deq e)"
  unfolding covered_def
proof (intro ballI impI)
  fix x w
  assume x: "x \<in> set (enq (deq e))" and xb: "infected (deq e) ! x \<le> bound (deq e)"
    and w: "w \<in> set (links (eg (deq e)) ! x)"
  from b have wf: "wf_state e" by (simp add: base_inv_def)
  note h = head_facts[OF b ne]
  from x obtain i where i: "i < qend (active e)" "enq e ! i = x"
    using enq_length[OF wf] by (auto simp: in_set_conv_nth)
  have "i < qbegin (active e)"
  proof (rule ccontr)
    assume "\<not> i < qbegin (active e)"
    then have le: "qbegin (active e) \<le> i" by simp
    from o have "sorted (map (\<lambda>v. infected e ! v) (enq e))" by (simp add: ordered_def)
    from sorted_nth_mono[OF this le] i enq_length[OF wf] h(1)
    have "infected e ! (enq e ! qbegin (active e)) \<le> infected e ! x" by simp
    with d xb show False by simp
  qed
  with c i w show "0 < infected (deq e) ! w \<and> infected (deq e) ! w \<le> infected (deq e) ! x + 1"
    by (auto simp: closed_def)
qed

lemma closed_covered_empty:
  assumes b: "base_inv e" and em: "queue_empty (active e)" and c: "closed e"
  shows "covered e"
  unfolding covered_def
proof (intro ballI impI)
  fix x w
  assume x: "x \<in> set (enq e)" and w: "w \<in> set (links (eg e) ! x)"
  from b have wf: "wf_state e" by (simp add: base_inv_def)
  from x obtain i where i: "i < qend (active e)" "enq e ! i = x"
    using enq_length[OF wf] by (auto simp: in_set_conv_nth)
  with em have "i < qbegin (active e)" by (simp add: queue_empty_def)
  with c i w show "0 < infected e ! w \<and> infected e ! w \<le> infected e ! x + 1"
    by (auto simp: closed_def)
qed

lemma pass_closed:
  assumes b: "base_inv e" and ne: "\<not> queue_empty (active e)" and o: "ordered e"
    and c: "closed e" and st: "stop_criterion e = MaxTime" and p1: "ep e = 1"
    and r: "\<forall>k. rnd k \<le> rm"
  shows "ok (run_node rm rnd (e, k)) (\<lambda>s'. closed (fst s')) (\<lambda>s'. covered (fst s'))"
proof -
  let ?u = "enq e ! qbegin (active e)"
  let ?t = "infected e ! ?u"
  note h = head_facts[OF b ne]
  from b have wf: "wf_state e" and wg: "wf_graph (eg e)" by (simp_all add: base_inv_def wf_state_def)
  show ?thesis
  proof (cases "bound e < ?t")
    case True
    then have "run_node rm rnd (e, k) = Inr (Return (deq e, k))"
      unfolding run_node_unfold[OF b ne] using st by (simp add: Let_def)
    with closed_covered_depth[OF b ne o c True] show ?thesis by simp
  next
    case False
    then have rn: "run_node rm rnd (e, k) = spread rm rnd ?u ?t (links (eg e) ! ?u) (deq e, k)"
      unfolding run_node_unfold[OF b ne] by (simp add: Let_def)
    have lr: "\<forall>v \<in> set (links (eg e) ! ?u). v < gn (eg (deq e))"
      using links_in_range[OF wg h(4)] by simp
    from h(5) have t0: "0 \<le> ?t" by simp
    have B: "ok (spread rm rnd ?u ?t (links (eg e) ! ?u) (deq e, k))
               (\<lambda>s'. \<forall>w \<in> set (links (eg e) ! ?u). infected (fst s') ! w \<noteq> 0) (\<lambda>s'. False)"
      by (rule spread_covers[OF h(6) _ _ r lr t0]) (simp_all add: st p1)
    note A = pass_ordered_at[OF b ne o refl, of rm rnd k]
    show ?thesis
      using ok_conj[OF A B[folded rn]]
    proof (rule ok_mono)
      fix s' :: "Epidemic \<times> nat"
      assume a: "(base_inv (fst s') \<and> grows (deq e) (fst s') \<and> ordered_at ?t (fst s'))
          \<and> (\<forall>w \<in> set (links (eg e) ! ?u). infected (fst s') ! w \<noteq> 0)"
      let ?e' = "fst s'"
      from a have b': "base_inv ?e'" and g: "grows (deq e) ?e'" and oa: "ordered_at ?t ?e'"
        and cv: "\<forall>w \<in> set (links (eg e) ! ?u). infected ?e' ! w \<noteq> 0" by simp_all
      from b' have wf': "wf_state ?e'" by (simp add: base_inv_def)
      note gf = grows_facts[OF g b]
      show "closed ?e'"
        unfolding closed_def
      proof (intro allI impI ballI)
        fix i w
        assume i: "i < qbegin (active ?e')" and w: "w \<in> set (links (eg ?e') ! (enq ?e' ! i))"
        from i gf(1) h(1) have iq: "i < qend (active e)" by simp
        then have xi: "enq ?e' ! i = enq e ! i" by (rule gf(4))
        from iq enq_length[OF wf] have xin: "enq e ! i \<in> set (enq e)" by simp
        from enq_infected[OF wf xin] have xl: "enq e ! i < gn (eg e)" by simp
        from w have w': "w \<in> set (links (eg e) ! (enq e ! i))" by (simp add: gf(2) xi)
        from links_in_range[OF wg xl] w' have wl: "w < gn (eg e)" by simp
        have tx: "infected ?e' ! (enq e ! i) = infected e ! (enq e ! i)" by (rule gf(3)[OF xin])
        show "0 < infected ?e' ! w \<and> infected ?e' ! w \<le> infected ?e' ! (enq ?e' ! i) + 1"
        proof (cases "i < qbegin (active e)")
          case True
          with c w' have cw: "0 < infected e ! w" "infected e ! w \<le> infected e ! (enq e ! i) + 1"
            by (auto simp: closed_def)
          from g wl cw(1) have "infected ?e' ! w = infected e ! w" by (simp add: grows_def)
          with cw tx xi show ?thesis by simp
        next
          case False
          with i gf(1) have ie: "i = qbegin (active e)" by simp
          with cv w' have nz: "infected ?e' ! w \<noteq> 0" by simp
          from wl gf(2) have wl': "w < gn (eg ?e')" by simp
          with wf' nz have win: "w \<in> set (enq ?e')" by (simp add: wf_state_def)
          from wf' wl' have "0 \<le> infected ?e' ! w" by (simp add: wf_state_def)
          with nz have "0 < infected ?e' ! w" by simp
          moreover from oa win have "infected ?e' ! w \<le> ?t + 1" by (simp add: ordered_at_def)
          ultimately show ?thesis using tx xi ie by simp
        qed
      qed
    qed simp
  qed
qed

lemma passes_closed:
  assumes p: "passes rm rnd (e0, k0) ts c" and b0: "base_inv e0" and o0: "ordered e0"
    and q0: "qbegin (active e0) = 0" and st: "stop_criterion e0 = MaxTime" and p1: "ep e0 = 1"
    and r: "\<forall>k. rnd k \<le> rm"
  shows "case c of
           Next s \<Rightarrow> base_inv (fst s) \<and> ordered (fst s) \<and> closed (fst s) \<and> keeps e0 (fst s)
         | Return s \<Rightarrow> base_inv (fst s) \<and> covered (fst s) \<and> keeps e0 (fst s)"
  using p
proof (rule passes_inv[where
      Inv = "\<lambda>ts s. base_inv (fst s) \<and> ordered (fst s) \<and> closed (fst s) \<and> keeps e0 (fst s)"
      and Fin = "\<lambda>ts s. base_inv (fst s) \<and> covered (fst s) \<and> keeps e0 (fst s)"])
  show "base_inv (fst (e0, k0)) \<and> ordered (fst (e0, k0)) \<and> closed (fst (e0, k0))
      \<and> keeps e0 (fst (e0, k0))"
    using b0 o0 q0 by (simp add: closed_def keeps_refl)
next
  fix ts s u q c
  assume i: "base_inv (fst s) \<and> ordered (fst s) \<and> closed (fst s) \<and> keeps e0 (fst s)"
    and ne: "\<not> queue_empty (active (fst s))"
    and rn: "run_node rm rnd s = Inr c"
  obtain e k where s: "s = (e, k)" by (cases s)
  from i s have b: "base_inv e" and o: "ordered e" and c: "closed e" and ke: "keeps e0 e"
    by simp_all
  from ne s have ne': "\<not> queue_empty (active e)" by simp
  from ke st p1 have st': "stop_criterion e = MaxTime" and p1': "ep e = 1"
    by (simp_all add: keeps_def)
  note A = pass_ordered[OF b ne' o refl, of rm rnd k]
  note B = pass_closed[OF b ne' o c st' p1' r, of k]
  from ok_conj[OF A B] rn s
  show "case c of
          Next s' \<Rightarrow> base_inv (fst s') \<and> ordered (fst s') \<and> closed (fst s') \<and> keeps e0 (fst s')
        | Return s' \<Rightarrow> base_inv (fst s') \<and> covered (fst s') \<and> keeps e0 (fst s')"
    by (cases c) (auto intro: keeps_grows[OF ke])
qed

lemma covered_reach:
  assumes b: "base_inv e" and cv: "covered e"
    and seeds: "\<forall>v \<in> S. v < gn (eg e) \<and> infected e ! v = 1"
    and r: "reach_in (eg e) S d v" and d: "int d \<le> bound e"
  shows "v < gn (eg e) \<and> 0 < infected e ! v \<and> infected e ! v \<le> int d + 1"
  using r d
proof (induction rule: reach_in.induct)
  case (reach_seed s)
  with seeds show ?case by simp
next
  case (reach_arc d u v)
  from b have wf: "wf_state e" and wg: "wf_graph (eg e)"
    by (simp_all add: base_inv_def wf_state_def)
  from reach_arc have u: "u < gn (eg e)" "0 < infected e ! u" "infected e ! u \<le> int d + 1"
    by simp_all
  with wf have "u \<in> set (enq e)" by (simp add: wf_state_def)
  moreover from u(3) reach_arc.prems have "infected e ! u \<le> bound e" by simp
  ultimately have "0 < infected e ! v \<and> infected e ! v \<le> infected e ! u + 1"
    using cv reach_arc.hyps(3) by (auto simp: covered_def)
  moreover from links_in_range[OF wg u(1)] reach_arc.hyps(3) have "v < gn (eg e)" by simp
  ultimately show ?case using u(3) by simp
qed

subsection \<open>Cascade links and trace records\<close>

lemma counted_update:
  assumes "list_all (\<lambda>r. case r of (t, u, v, i) \<Rightarrow> v < length ti \<and> ti ! v \<noteq> 0) tr"
    and "ti ! v = 0"
  shows "filter (counted (ti[v := x])) tr = filter (counted ti) tr"
proof (rule filter_cong[OF refl])
  fix r assume "r \<in> set tr"
  with assms(1) have a: "case r of (t, u, w, i) \<Rightarrow> w < length ti \<and> ti ! w \<noteq> 0"
    by (simp add: list_all_iff)
  obtain t u w i where r: "r = (t, u, w, i)" by (cases r)
  with a assms(2) have "w \<noteq> v" by auto
  then show "counted (ti[v := x]) r = counted ti r" by (simp add: counted_def r)
qed

lemma attempt_linked:
  assumes l: "linked e" and v: "v < length (infected e)" and t: "0 \<le> t"
  shows "post (attempt rm rnd u t v (e, k)) (\<lambda>s'. linked (fst s')) (\<lambda>s'. linked (fst s'))"
proof -
  from l obtain tr where tr: "eoutput e = Some tr"
    and c: "cascade_links e = int (length (filter (counted (infected e)) tr))"
    and a: "list_all (\<lambda>r. case r of (t, u, v, i) \<Rightarrow> v < length (infected e) \<and> infected e ! v \<noteq> 0) tr"
    by (auto simp: linked_def split: option.splits)
  show ?thesis
  proof (cases "trial rm (ep e) (rnd k)")
    case False
    with l show ?thesis by simp
  next
    case True
    show ?thesis
    proof (cases "infected e ! v = 0")
      case z: True
      have f: "filter (counted ((infected e)[v := t + 1])) tr = filter (counted (infected e)) tr"
        by (rule counted_update[OF a z])
      have n: "counted ((infected e)[v := t + 1]) (t, u, v, eid e)"
        using v by (simp add: counted_def)
      have a': "list_all (\<lambda>r. case r of (t', u, w, i) \<Rightarrow>
                  w < length ((infected e)[v := t + 1]) \<and> (infected e)[v := t + 1] ! w \<noteq> 0) tr"
        unfolding list_all_iff
      proof
        fix r assume r: "r \<in> set tr"
        obtain t' u' w i where q: "r = (t', u', w, i)" by (cases r)
        from a r q have "w < length (infected e)" "infected e ! w \<noteq> 0"
          by (auto simp: list_all_iff)
        with z have "w \<noteq> v" by auto
        with \<open>w < length (infected e)\<close> \<open>infected e ! w \<noteq> 0\<close>
        show "case r of (t', u, w, i) \<Rightarrow>
                w < length ((infected e)[v := t + 1]) \<and> (infected e)[v := t + 1] ! w \<noteq> 0"
          by (simp add: q)
      qed
      have "linked (e\<lparr>infected := (infected e)[v := t + 1], active := q,
                      num_infected := num_infected e + 1,
                      cascade_links := cascade_links e + 1, et := t,
                      eoutput := fprintf (eoutput e) (t, u, v, eid e)\<rparr>)" for q
        using c f n a' v t by (simp add: linked_def tr fprintf_def)
      with True z v show ?thesis by (simp add: Let_def split: sum.splits)
    next
      case nz: False
      have "linked (e\<lparr>cascade_links := cascade_links e + 1,
                      eoutput := fprintf (eoutput e) (t, u, v, eid e)\<rparr>)"
        if "infected e ! v = t + 1"
        using c a v nz that by (simp add: linked_def tr fprintf_def counted_def)
      moreover have "linked (e\<lparr>eoutput := fprintf (eoutput e) (t, u, v, eid e)\<rparr>)"
        if "infected e ! v \<noteq> t + 1"
        using c a v nz that by (simp add: linked_def tr fprintf_def counted_def)
      ultimately show ?thesis using True nz v by simp
    qed
  qed
qed

lemma pass_linked:
  assumes b: "base_inv e" and ne: "\<not> queue_empty (active e)" and l: "linked e"
  shows "ok (run_node rm rnd (e, k))
           (\<lambda>s'. base_inv (fst s') \<and> linked (fst s')) (\<lambda>s'. base_inv (fst s') \<and> linked (fst s'))"
proof -
  note h = head_facts[OF b ne]
  have "ok (run_node rm rnd (e, k))
           (\<lambda>s'. base_inv (fst s') \<and> grows (deq e) (fst s') \<and> linked (fst s'))
           (\<lambda>s'. base_inv (fst s') \<and> grows (deq e) (fst s') \<and> linked (fst s'))"
  proof (rule pass_rule[OF b ne refl refl, where X = linked and Y = linked])
    show "linked (deq e)" using l by (simp add: linked_def split: option.splits)
    then show "linked (deq e)" .
  next
    fix v e1 k1
    assume "base_inv e1" "linked e1" "v < gn (eg e1)"
    then show "post (attempt rm rnd (enq e ! qbegin (active e))
                 (infected e ! (enq e ! qbegin (active e))) v (e1, k1))
               (\<lambda>s'. linked (fst s')) (\<lambda>s'. linked (fst s'))"
      using h(5) by (intro attempt_linked) (simp_all add: base_inv_def wf_state_def)
  qed
  then show ?thesis by (rule ok_mono) simp_all
qed

lemma passes_linked:
  assumes p: "passes rm rnd (e0, k0) ts c" and b0: "base_inv e0" and l0: "linked e0"
  shows "base_inv (fst (state_of c)) \<and> linked (fst (state_of c))"
proof -
  have "case c of Next s \<Rightarrow> base_inv (fst s) \<and> linked (fst s)
                | Return s \<Rightarrow> base_inv (fst s) \<and> linked (fst s)"
    using p
  proof (rule passes_inv[where Inv = "\<lambda>ts s. base_inv (fst s) \<and> linked (fst s)"
        and Fin = "\<lambda>ts s. base_inv (fst s) \<and> linked (fst s)"])
    show "base_inv (fst (e0, k0)) \<and> linked (fst (e0, k0))" using b0 l0 by simp
  next
    fix ts s u q c
    assume i: "base_inv (fst s) \<and> linked (fst s)" and ne: "\<not> queue_empty (active (fst s))"
      and rn: "run_node rm rnd s = Inr c"
    obtain e k where s: "s = (e, k)" by (cases s)
    from pass_linked[of e rm rnd k] i ne rn s
    show "case c of Next s' \<Rightarrow> base_inv (fst s') \<and> linked (fst s')
                  | Return s' \<Rightarrow> base_inv (fst s') \<and> linked (fst s')"
      by (cases c) simp_all
  qed
  then show ?thesis by (cases c) simp_all
qed

lemma run_linked:
  assumes "wf_graph gr" "seeds_ok gr ic"
  shows "\<exists>e0 r k tr. epidemic_new p gr ic (Some []) = Inr e0
           \<and> epidemic_run rm rnd (e0, k0) = Some (Inr (r, k)) \<and> eoutput r = Some tr
           \<and> cascade_links r
               = int (length (filter (\<lambda>(t, u, v, i). infected r ! v = t + 1) tr))"
proof -
  from epidemic_new_ok[OF assms(1) seeds_okD[OF assms(2)], of p "Some []"] obtain e0 where
    e0: "epidemic_new p gr ic (Some []) = Inr e0" "base_inv e0"
        "cascade_links e0 = 0" "eoutput e0 = Some []"
    by blast
  then have l0: "linked e0" by (simp add: linked_def)
  from run_total[of "(e0, k0)" rm rnd] e0(2) obtain r ts c where
    r: "epidemic_run rm rnd (e0, k0) = Some (Inr r)" "passes rm rnd (e0, k0) ts c"
       "state_of c = r"
    by auto
  from passes_linked[OF r(2) e0(2) l0] r(3) have "linked (fst r)" by simp
  then obtain tr where "eoutput (fst r) = Some tr"
    "cascade_links (fst r) = int (length (filter (counted (infected (fst r))) tr))"
    by (auto simp: linked_def split: option.splits)
  moreover have "counted (infected (fst r)) = (\<lambda>(t, u, v, i). infected (fst r) ! v = t + 1)"
    by (auto simp: counted_def fun_eq_iff)
  ultimately show ?thesis using e0(1) r(1) by (cases r) auto
qed

subsection \<open>The scenarios, evaluated\<close>

lemmas queue_defs = queue_new_def queue_add_def queue_full_def queue_get_def queue_empty_def

lemma replicate_small:
  "replicate 3 x = [x, x, x]" "replicate 4 x = [x, x, x, x]"
  "replicate 5 x = [x, x, x, x, x]" "replicate 6 x = [x, x, x, x, x, x]"
  by (simp_all add: numeral_eq_Suc)

lemma wf_line5: "wf_graph line5"
  by (simp add: wf_graph_def line5_def)

lemma seeds_ok_line: "seeds_ok line5 (ic_line i)"
  by (simp add: seeds_ok_def line5_def ic_line_def)

lemma line_new:
  "epidemic_new 1 line5 (ic_line i) out =
     Inr \<lparr>eid = i, et = 1, num_infected = 1, cascade_links = 0, bound = 2,
          stop_criterion = MaxTime, ep = 1, eg = line5, eoutput = out,
          infected = [1, 0, 0, 0, 0],
          active = \<lparr>qsize = 6, qbegin = 0, qend = 1, qnodes = [0, 0, 0, 0, 0, 0]\<rparr>\<rparr>"
  by (simp add: epidemic_new_def line5_def ic_line_def queue_defs replicate_small)

lemma line_run0:
  assumes "\<forall>k. rnd k \<le> rm"
  shows "epidemic_run rm rnd (\<lparr>eid = i, et = 1, num_infected = 1, cascade_links = 0, bound = 2,
          stop_criterion = MaxTime, ep = 1, eg = line5, eoutput = Some [],
          infected = [1, 0, 0, 0, 0],
          active = \<lparr>qsize = 6, qbegin = 0, qend = 1, qnodes = [0, 0, 0, 0, 0, 0]\<rparr>\<rparr>, 0) =
      Some (Inr (\<lparr>eid = i, et = 2, num_infected = 3, cascade_links = 2, bound = 2,
          stop_criterion = MaxTime, ep = 1, eg = line5,
          eoutput = Some [(1, 0, 1, i), (2, 1, 2, i)],
          infected = [1, 2, 3, 0, 0],
          active = \<lparr>qsize = 6, qbegin = 3, qend = 3, qnodes = [0, 1, 2, 0, 0, 0]\<rparr>\<rparr>, 2))"
    using assms
    by (simp add: line5_def epidemic_run.simps queue_defs trial_one fprintf_def Let_def)

lemma line_reach2: "reach_in line5 {v. int v \<in> set (ic_infected (ic_line 7))} 2 2"
proof -
  let ?S = "{v. int v \<in> set (ic_infected (ic_line 7))}"
  have "reach_in line5 ?S 0 0" by (rule reach_seed) (simp add: ic_line_def)
  then have "reach_in line5 ?S (Suc 0) 1" by (rule reach_arc) (simp_all add: line5_def)
  then have "reach_in line5 ?S (Suc (Suc 0)) 2" by (rule reach_arc) (simp_all add: line5_def)
  then show ?thesis by (simp add: numeral_2_eq_2)
qed

lemma wf_star5: "wf_graph star5"
  by (simp add: wf_graph_def star5_def)

lemma star_new:
  "epidemic_new 1 star5 (ic_star i) out =
     Inr \<lparr>eid = i, et = 1, num_infected = 1, cascade_links = 0, bound = 3,
          stop_criterion = NumInfected, ep = 1, eg = star5, eoutput = out,
          infected = [1, 0, 0, 0, 0],
          active = \<lparr>qsize = 6, qbegin = 0, qend = 1, qnodes = [0, 0, 0, 0, 0, 0]\<rparr>\<rparr>"
  by (simp add: epidemic_new_def star5_def ic_star_def queue_defs replicate_small)

lemma star_run0:
  assumes "\<forall>k. rnd k \<le> rm"
  shows "epidemic_run rm rnd (\<lparr>eid = i, et = 1, num_infected = 1, cascade_links = 0, bound = 3,
          stop_criterion = NumInfected, ep = 1, eg = star5, eoutput = Some [],
          infected = [1, 0, 0, 0, 0],
          active = \<lparr>qsize = 6, qbegin = 0, qend = 1, qnodes = [0, 0, 0, 0, 0, 0]\<rparr>\<rparr>, 0) =
      Some (Inr (\<lparr>eid = i, et = 1, num_infected = 3, cascade_links = 2, bound = 3,
          stop_criterion = NumInfected, ep = 1, eg = star5,
          eoutput = Some [(1, 0, 1, i), (1, 0, 2, i)],
          infected = [1, 2, 2, 0, 0],
          active = \<lparr>qsize = 6, qbegin = 1, qend = 3, qnodes = [0, 1, 2, 0, 0, 0]\<rparr>\<rparr>, 2))"
    using assms
    by (simp add: star5_def epidemic_run.simps queue_defs trial_one fprintf_def Let_def)

lemma star1_new: "epidemic_new 1 star5 ic_star1 None = Inr star1_start"
  by (simp add: epidemic_new_def star5_def ic_star1_def star1_start_def queue_defs
      replicate_small)

lemma star1_run0:
  "epidemic_run 32767 (\<lambda>k. 32767) (star1_start, 0) = Some (Inr (star1_end, 4))"
  by (simp add: star5_def star1_start_def star1_end_def epidemic_run.simps queue_defs
      trial_one fprintf_def Let_def)

lemmas tri_defs = tri_state_def tri_start_def tri_mid1_def tri_mid2_def tri_end_def triangle3_def

lemma wf_triangle3: "wf_graph triangle3"
  by (simp add: wf_graph_def triangle3_def)

lemma seeds_ok_triangle: "seeds_ok triangle3 (ic_triangle i)"
  by (simp add: seeds_ok_def triangle3_def ic_triangle_def)

lemma triangle_new:
  "epidemic_new 1 triangle3 (ic_triangle i) out =
     Inr \<lparr>eid = i, et = 1, num_infected = 1, cascade_links = 0, bound = 10,
          stop_criterion = MaxTime, ep = 1, eg = triangle3, eoutput = out,
          infected = [1, 0, 0],
          active = \<lparr>qsize = 4, qbegin = 0, qend = 1, qnodes = [0, 0, 0, 0]\<rparr>\<rparr>"
  by (simp add: epidemic_new_def triangle3_def ic_triangle_def queue_defs replicate_small)

lemma triangle_run0:
  assumes "\<forall>k. rnd k \<le> rm"
  shows "epidemic_run rm rnd (\<lparr>eid = i, et = 1, num_infected = 1, cascade_links = 0, bound = 10,
          stop_criterion = MaxTime, ep = 1, eg = triangle3, eoutput = Some [],
          infected = [1, 0, 0],
          active = \<lparr>qsize = 4, qbegin = 0, qend = 1, qnodes = [0, 0, 0, 0]\<rparr>\<rparr>, 0) =
      Some (Inr (\<lparr>eid = i, et = 1, num_infected = 3, cascade_links = 2, bound = 10,
          stop_criterion = MaxTime, ep = 1, eg = triangle3,
          eoutput = Some [(1, 0, 1, i), (1, 0, 2, i), (2, 1, 2, i)],
          infected = [1, 2, 2],
          active = \<lparr>qsize = 4, qbegin = 3, qend = 3, qnodes = [0, 1, 2, 0]\<rparr>\<rparr>, 3))"
    using assms
    by (simp add: triangle3_def epidemic_run.simps queue_defs trial_one fprintf_def Let_def)

lemma tri_new: "epidemic_new 1 triangle3 (ic_triangle 7) (Some []) = Inr tri_start"
  by (simp add: epidemic_new_def ic_triangle_def tri_defs queue_defs replicate_small)

lemma tri_pass1:
  "queue_get (active tri_start) = Inr (0, \<lparr>qsize = 4, qbegin = 1, qend = 1, qnodes = [0, 0, 0, 0]\<rparr>)"
  "run_node 32767 (\<lambda>k. 32767) (tri_start, 0) = Inr (Next (tri_mid1, 2))"
  "infected tri_start ! 0 = 1" "\<not> queue_empty (active tri_start)"
  by (simp_all add: tri_defs queue_defs trial_one fprintf_def)

lemma tri_pass2:
  "queue_get (active tri_mid1) = Inr (1, \<lparr>qsize = 4, qbegin = 2, qend = 3, qnodes = [0, 1, 2, 0]\<rparr>)"
  "run_node 32767 (\<lambda>k. 32767) (tri_mid1, 2) = Inr (Next (tri_mid2, 3))"
  "infected tri_mid1 ! 1 = 2" "\<not> queue_empty (active tri_mid1)"
  by (simp_all add: tri_defs queue_defs trial_one fprintf_def)

lemma tri_pass3:
  "queue_get (active tri_mid2) = Inr (2, \<lparr>qsize = 4, qbegin = 3, qend = 3, qnodes = [0, 1, 2, 0]\<rparr>)"
  "run_node 32767 (\<lambda>k. 32767) (tri_mid2, 3) = Inr (Next (tri_end, 3))"
  "infected tri_mid2 ! 2 = 2" "\<not> queue_empty (active tri_mid2)" "queue_empty (active tri_end)"
  by (simp_all add: tri_defs queue_defs trial_one fprintf_def)

lemma tri_passes: "passes 32767 (\<lambda>k. 32767) (tri_start, 0) [1, 2, 2] (Next (tri_end, 3))"
proof -
  let ?P = "passes 32767 (\<lambda>k. 32767) (tri_start, 0)"
  have "?P [] (Next (tri_start, 0))" by (rule passes_start)
  from passes_step[OF this _ _ tri_pass1(2)] tri_pass1
  have "?P [1] (Next (tri_mid1, 2))" by simp
  from passes_step[OF this _ _ tri_pass2(2)] tri_pass2
  have "?P [1, 2] (Next (tri_mid2, 3))" by simp
  from passes_step[OF this _ _ tri_pass3(2)] tri_pass3
  show "?P [1, 2, 2] (Next (tri_end, 3))" by simp
qed

lemma tri_run: "epidemic_run 32767 (\<lambda>k. 32767) (tri_start, 0) = Some (Inr (tri_end, 3))"
  using tri_pass1 tri_pass2 tri_pass3 by (simp add: epidemic_run.simps)

lemma wf_diamond4: "wf_graph diamond4"
  by (simp add: wf_graph_def diamond4_def)

lemma seeds_ok_diamond: "seeds_ok diamond4 ic_diamond"
  by (simp add: seeds_ok_def diamond4_def ic_diamond_def)

lemma dia_new: "epidemic_new 1 diamond4 ic_diamond (Some []) = Inr dia_start"
  by (simp add: epidemic_new_def ic_diamond_def dia_start_def diamond4_def queue_defs
      replicate_small)

lemma dia_run: "epidemic_run 32767 (\<lambda>k. 32767) (dia_start, 0) = Some (Inr (dia_end, 4))"
  by (simp add: dia_start_def dia_end_def diamond4_def epidemic_run.simps queue_defs
      trial_one fprintf_def Let_def)

section \<open>The claims\<close>

text \<open>
  C7. For an epidemic constructed from distinct in-range seeds on a well-formed graph,
  \<open>num_infected\<close> equals the number of nodes \<open>v\<close> with \<open>infected[v] > 0\<close> at every
  observable point of the run: after construction, after each pass of the \<open>while\<close> loop
  (whether it went through the whole adjacency list or returned), and in the state the run
  returns, which it always does.
\<close>

theorem num_infected_counts:
  assumes "wf_graph gr" "seeds_ok gr ic"
  shows "\<exists>e0. epidemic_new p gr ic out = Inr e0
           \<and> (\<forall>e k. observable rm rnd (e0, k0) (e, k)
                 \<longrightarrow> num_infected e = int (card {v. v < gn gr \<and> 0 < infected e ! v}))
           \<and> (\<exists>r. epidemic_run rm rnd (e0, k0) = Some (Inr r) \<and> observable rm rnd (e0, k0) r)"
proof -
  from epidemic_new_ok[OF assms(1) seeds_okD[OF assms(2)], of p out] obtain e0 where
    e0: "epidemic_new p gr ic out = Inr e0" "base_inv e0" "eg e0 = gr" by blast
  have "num_infected e = int (card {v. v < gn gr \<and> 0 < infected e ! v})"
    if "observable rm rnd (e0, k0) (e, k)" for e k
    using observable_base[OF that] e0 base_inv_count[of e] by simp
  moreover have "\<exists>r. epidemic_run rm rnd (e0, k0) = Some (Inr r) \<and> observable rm rnd (e0, k0) r"
    by (rule run_base) (simp add: e0)
  ultimately show ?thesis using e0(1) by blast
qed

theorem num_infected_counts_witness:
  "wf_graph line5 \<and> seeds_ok line5 (ic_line 7)
   \<and> (\<exists>e0 r. epidemic_new 1 line5 (ic_line 7) (Some []) = Inr e0
         \<and> epidemic_run 32767 (\<lambda>k. 0) (e0, 0) = Some (Inr r)
         \<and> num_infected (fst r) = int (card {v. v < gn line5 \<and> 0 < infected (fst r) ! v}))"
proof -
  from num_infected_counts[OF wf_line5 seeds_ok_line, of 1 7 "Some []" 32767 "\<lambda>k. 0" 0]
  obtain e0 r where "epidemic_new 1 line5 (ic_line 7) (Some []) = Inr e0"
    "\<forall>e k. observable 32767 (\<lambda>k. 0) (e0, 0) (e, k)
        \<longrightarrow> num_infected e = int (card {v. v < gn line5 \<and> 0 < infected e ! v})"
    "epidemic_run 32767 (\<lambda>k. 0) (e0, 0) = Some (Inr r)"
    "observable 32767 (\<lambda>k. 0) (e0, 0) r"
    by blast
  then show ?thesis using wf_line5 seeds_ok_line by (cases r) auto
qed

text \<open>
  C6. On a well-formed graph of \<open>n\<close> nodes and from distinct in-range seeds, no push meets
  a full buffer: \<open>queue_new n\<close> allocates \<open>n + 1\<close> slots, the construction and the run
  end without any failed assertion (a push on a full buffer would be \<open>Inl Assert_not_full\<close>),
  and at every observable point at most \<open>n\<close> nodes have been pushed, each of them once,
  the buffer is not full and it accepts any node whose infection time is still 0.
\<close>

theorem push_never_full:
  assumes "wf_graph gr" "seeds_ok gr ic"
  shows "qsize (queue_new (gn gr)) = gn gr + 1
         \<and> (\<exists>e0. epidemic_new p gr ic out = Inr e0
           \<and> (\<exists>r. epidemic_run rm rnd (e0, k0) = Some (Inr r))
           \<and> (\<forall>e k. observable rm rnd (e0, k0) (e, k)
                 \<longrightarrow> qend (active e) \<le> gn gr
                     \<and> distinct (take (qend (active e)) (qnodes (active e))))
           \<and> (\<forall>e k v. observable rm rnd (e0, k0) (e, k) \<and> v < gn gr \<and> infected e ! v = 0
                 \<longrightarrow> \<not> queue_full (active e) \<and> (\<exists>q. queue_add (active e) v = Inr q)))"
proof -
  from epidemic_new_ok[OF assms(1) seeds_okD[OF assms(2)], of p out] obtain e0 where
    e0: "epidemic_new p gr ic out = Inr e0" "base_inv e0" "eg e0 = gr" by blast
  have "\<not> queue_full (active e) \<and> (\<exists>q. queue_add (active e) v = Inr q)"
    if o: "observable rm rnd (e0, k0) (e, k)" and v: "v < gn gr" "infected e ! v = 0" for e k v
  proof -
    from observable_base[OF o] e0 have b: "base_inv e" and g: "eg e = gr" by simp_all
    then have wf: "wf_state e" by (simp add: base_inv_def)
    from v g have v': "v < gn (eg e)" by simp
    from wf_state_room[OF wf v' v(2)] wf have "\<not> queue_full (active e)"
      by (simp add: queue_full_def wf_state_def)
    with queue_add_ok[OF wf v' v(2)] show ?thesis by simp
  qed
  moreover have "qend (active e) \<le> gn gr \<and> distinct (take (qend (active e)) (qnodes (active e)))"
    if o: "observable rm rnd (e0, k0) (e, k)" for e k
  proof -
    from observable_base[OF o] e0 have "base_inv e" and g: "eg e = gr" by simp_all
    then have "wf_state e" by (simp add: base_inv_def)
    then show ?thesis unfolding g[symmetric] by (simp add: wf_state_def enq_def)
  qed
  moreover have "\<exists>r. epidemic_run rm rnd (e0, k0) = Some (Inr r)"
    using run_base[of "(e0, k0)" rm rnd] e0 by auto
  ultimately show ?thesis using e0(1) by (simp add: queue_new_def) blast
qed

theorem push_never_full_witness:
  "wf_graph line5 \<and> seeds_ok line5 (ic_line 7)
   \<and> (\<exists>e0 r. epidemic_new 1 line5 (ic_line 7) (Some []) = Inr e0
         \<and> epidemic_run 32767 (\<lambda>k. 0) (e0, 0) = Some (Inr r))"
proof -
  from push_never_full[OF wf_line5 seeds_ok_line, of 1 7 "Some []" 32767 "\<lambda>k. 0" 0]
  show ?thesis using wf_line5 seeds_ok_line by blast
qed

text \<open>
  C3. On the line graph \<open>0\<rightarrow>1\<rightarrow>2\<rightarrow>3\<rightarrow>4\<close> with the seed 0, \<open>p = 1\<close>, the criterion
  \<open>MaxTime\<close> and the bound 2, whatever values \<open>rand()\<close> returns (they are at most
  \<open>RAND_MAX\<close>), the run returns with \<open>infected = [1,2,3,0,0]\<close>, \<open>num_infected = 3\<close>
  and exactly the two trace records \<open>1 0 1 id\<close> and \<open>2 1 2 id\<close>, in this order.
\<close>

theorem line_run:
  assumes "\<forall>k. rnd k \<le> rm"
  shows "\<exists>e0 r k. epidemic_new 1 line5 (ic_line i) (Some []) = Inr e0
           \<and> epidemic_run rm rnd (e0, 0) = Some (Inr (r, k))
           \<and> infected r = [1, 2, 3, 0, 0] \<and> num_infected r = 3
           \<and> eoutput r = Some [(1, 0, 1, i), (2, 1, 2, i)]"
proof -
  note n = line_new[of i "Some []"] and r = line_run0[OF assms, of i]
  show ?thesis
    by (rule exI, rule exI, rule exI, rule conjI, rule n, rule conjI, rule r) simp
qed

theorem line_run_witness:
  "\<exists>e0 r k. epidemic_new 1 line5 (ic_line 7) (Some []) = Inr e0
           \<and> epidemic_run 32767 (\<lambda>k. 32767) (e0, 0) = Some (Inr (r, k))
           \<and> infected r = [1, 2, 3, 0, 0] \<and> num_infected r = 3
           \<and> eoutput r = Some [(1, 0, 1, 7), (2, 1, 2, 7)]"
  using line_run[of "\<lambda>k. 32767" 32767 7] by simp

text \<open>
  C5. With the criterion \<open>MaxTime\<close>, when the dequeued node \<open>u\<close> has
  \<open>infected[u] > bound\<close>, the pass of the loop returns and so does the run; the state returned
  is the state before the pass with only the buffer's head removed: no call of \<open>rand()\<close>,
  no trace record, and \<open>infected\<close>, \<open>num_infected\<close> and \<open>cascade_links\<close> unchanged.
\<close>

theorem maxdepth_exit:
  assumes "\<not> queue_empty (active e)" and "queue_get (active e) = Inr (u, q)"
    and "u < length (infected e)" and "stop_criterion e = MaxTime"
    and "bound e < infected e ! u"
  shows "run_node rm rnd (e, k) = Inr (Return (e\<lparr>active := q\<rparr>, k))
         \<and> epidemic_run rm rnd (e, k) = Some (Inr (e\<lparr>active := q\<rparr>, k))"
proof -
  have r: "run_node rm rnd (e, k) = Inr (Return (e\<lparr>active := q\<rparr>, k))"
    using assms(2-5) by simp
  moreover have "epidemic_run rm rnd (e, k) = Some (Inr (e\<lparr>active := q\<rparr>, k))"
    using assms(1) r by (subst epidemic_run.simps) simp
  ultimately show ?thesis by simp
qed

theorem maxdepth_exit_witness:
  "epidemic_run 32767 (\<lambda>k. 32767) (line_late, 2)
     = Some (Inr (line_late\<lparr>active := \<lparr>qsize = 6, qbegin = 3, qend = 3,
                                          qnodes = [0, 1, 2, 0, 0, 0]\<rparr>\<rparr>, 2))"
proof -
  have "\<not> queue_empty (active line_late)"
    and "queue_get (active line_late)
          = Inr (2, \<lparr>qsize = 6, qbegin = 3, qend = 3, qnodes = [0, 1, 2, 0, 0, 0]\<rparr>)"
    and "2 < length (infected line_late)" and "stop_criterion line_late = MaxTime"
    and "bound line_late < infected line_late ! 2"
    by (simp_all add: line_late_def queue_defs)
  from maxdepth_exit[OF this] show ?thesis by simp
qed




text \<open>
  C4, as amended. With the criterion \<open>NumInfected\<close>, when a first infection raises
  \<open>num_infected\<close> to the bound, the run returns at once: whatever neighbours \<open>vs2\<close> of
  \<open>u\<close> remain and whatever the buffer holds, the state returned is the state of that
  first infection, with the one trace record \<open>(t, u, v, id)\<close> appended. On the star graph
  with centre 0, seed 0, \<open>p = 1\<close> and bound 3 the seed counts in \<open>num_infected\<close>: exactly
  two trace records are emitted, both at step 1, and \<open>num_infected = 3\<close> at the return.
\<close>

theorem maxsize_stop:
  "(\<forall>e0 k0 u q0 vs1 v vs2 e k q.
      \<not> queue_empty (active e0) \<and> queue_get (active e0) = Inr (u, q0)
      \<and> u < length (infected e0) \<and> u < length (links (eg e0))
      \<and> links (eg e0) ! u = vs1 @ v # vs2
      \<and> spread rm rnd u (infected e0 ! u) vs1 (e0\<lparr>active := q0\<rparr>, k0) = Inr (Next (e, k))
      \<and> stop_criterion e0 = NumInfected \<and> stop_criterion e = NumInfected
      \<and> trial rm (ep e) (rnd k) \<and> v < length (infected e) \<and> infected e ! v = 0
      \<and> queue_add (active e) v = Inr q \<and> bound e = num_infected e + 1
      \<longrightarrow> epidemic_run rm rnd (e0, k0)
            = Some (Inr (infect u (infected e0 ! u) v q e, Suc k)))
   \<and> ((\<forall>k. rnd k \<le> rm) \<longrightarrow>
        (\<exists>e0 r k. epidemic_new 1 star5 (ic_star i) (Some []) = Inr e0
           \<and> epidemic_run rm rnd (e0, 0) = Some (Inr (r, k))
           \<and> eoutput r = Some [(1, 0, 1, i), (1, 0, 2, i)] \<and> num_infected r = 3
           \<and> infected r = [1, 2, 2, 0, 0]))"
proof (intro conjI allI impI)
  fix e0 k0 u q0 vs1 v vs2 e k q
  assume "\<not> queue_empty (active e0) \<and> queue_get (active e0) = Inr (u, q0)
      \<and> u < length (infected e0) \<and> u < length (links (eg e0))
      \<and> links (eg e0) ! u = vs1 @ v # vs2
      \<and> spread rm rnd u (infected e0 ! u) vs1 (e0\<lparr>active := q0\<rparr>, k0) = Inr (Next (e, k))
      \<and> stop_criterion e0 = NumInfected \<and> stop_criterion e = NumInfected
      \<and> trial rm (ep e) (rnd k) \<and> v < length (infected e) \<and> infected e ! v = 0
      \<and> queue_add (active e) v = Inr q \<and> bound e = num_infected e + 1"
  then show "epidemic_run rm rnd (e0, k0) = Some (Inr (infect u (infected e0 ! u) v q e, Suc k))"
    by (intro run_maxsize[where ?vs1.0 = vs1 and ?vs2.0 = vs2 and ?q0.0 = q0]) simp_all
next
  assume a: "\<forall>k. rnd k \<le> rm"
  note n = star_new[of i "Some []"] and r = star_run0[OF a, of i]
  show "\<exists>e0 r k. epidemic_new 1 star5 (ic_star i) (Some []) = Inr e0
           \<and> epidemic_run rm rnd (e0, 0) = Some (Inr (r, k))
           \<and> eoutput r = Some [(1, 0, 1, i), (1, 0, 2, i)] \<and> num_infected r = 3
           \<and> infected r = [1, 2, 2, 0, 0]"
    by (rule exI, rule exI, rule exI, rule conjI, rule n, rule conjI, rule r) simp
qed

theorem maxsize_stop_witness:
  "queue_get (active star_start)
      = Inr (0, \<lparr>qsize = 6, qbegin = 1, qend = 1, qnodes = [0, 0, 0, 0, 0, 0]\<rparr>)
   \<and> links (eg star_start) ! 0 = [1] @ 2 # [3, 4]
   \<and> spread 32767 (\<lambda>k. 32767) 0 (infected star_start ! 0) [1]
        (star_start\<lparr>active := \<lparr>qsize = 6, qbegin = 1, qend = 1, qnodes = [0, 0, 0, 0, 0, 0]\<rparr>\<rparr>, 0)
      = Inr (Next (star_mid, 1))
   \<and> trial 32767 (ep star_mid) 32767 \<and> infected star_mid ! 2 = 0
   \<and> queue_add (active star_mid) 2
      = Inr \<lparr>qsize = 6, qbegin = 1, qend = 3, qnodes = [0, 1, 2, 0, 0, 0]\<rparr>
   \<and> bound star_mid = num_infected star_mid + 1
   \<and> epidemic_run 32767 (\<lambda>k. 32767) (star_start, 0)
      = Some (Inr (infect 0 (infected star_start ! 0) 2
           \<lparr>qsize = 6, qbegin = 1, qend = 3, qnodes = [0, 1, 2, 0, 0, 0]\<rparr> star_mid, Suc 1))
   \<and> eoutput (infect 0 (infected star_start ! 0) 2
           \<lparr>qsize = 6, qbegin = 1, qend = 3, qnodes = [0, 1, 2, 0, 0, 0]\<rparr> star_mid)
      = Some [(1, 0, 1, 7), (1, 0, 2, 7)]"
proof -
  let ?qa = "\<lparr>qsize = 6, qbegin = 1, qend = 1, qnodes = [0, 0, 0, 0, 0, 0]\<rparr>"
  let ?qb = "\<lparr>qsize = 6, qbegin = 1, qend = 3, qnodes = [0, 1, 2, 0, 0, 0]\<rparr>"
  have h1: "\<not> queue_empty (active star_start) \<and> queue_get (active star_start) = Inr (0, ?qa)
      \<and> 0 < length (infected star_start) \<and> 0 < length (links (eg star_start))
      \<and> links (eg star_start) ! 0 = [1] @ 2 # [3, 4]"
    by (simp add: star_start_def star5_def queue_defs)
  have h2: "spread 32767 (\<lambda>k. 32767) 0 (infected star_start ! 0) [1]
            (star_start\<lparr>active := ?qa\<rparr>, 0) = Inr (Next (star_mid, 1))
      \<and> stop_criterion star_start = NumInfected \<and> stop_criterion star_mid = NumInfected"
    by (simp add: star_start_def star_mid_def queue_defs trial_one fprintf_def)
  have h3: "trial 32767 (ep star_mid) ((\<lambda>k. 32767) (1::nat))
      \<and> 2 < length (infected star_mid) \<and> infected star_mid ! 2 = 0
      \<and> queue_add (active star_mid) 2 = Inr ?qb \<and> bound star_mid = num_infected star_mid + 1"
    by (simp add: star_mid_def queue_defs trial_one)
  have r: "epidemic_run 32767 (\<lambda>k. 32767) (star_start, 0)
      = Some (Inr (infect 0 (infected star_start ! 0) 2 ?qb star_mid, Suc 1))"
    using h1 h2 h3
      maxsize_stop[of 32767 "\<lambda>k. 32767" 7, THEN conjunct1,
        THEN spec[where x = star_start], THEN spec[where x = 0], THEN spec[where x = 0],
        THEN spec[where x = ?qa], THEN spec[where x = "[1]"], THEN spec[where x = 2],
        THEN spec[where x = "[3, 4]"], THEN spec[where x = star_mid],
        THEN spec[where x = 1], THEN spec[where x = ?qb]]
    by blast
  have o: "eoutput (infect 0 (infected star_start ! 0) 2 ?qb star_mid)
      = Some [(1, 0, 1, 7), (1, 0, 2, 7)]"
    by (simp add: infect_def star_start_def star_mid_def fprintf_def)
  from h1 h2 h3 r o show ?thesis by simp
qed

text \<open>The star scenario does not emit three trace records.\<close>

theorem star_three_records_counterexample:
  "\<not> (\<exists>e0 r k tr. epidemic_new 1 star5 (ic_star 7) (Some []) = Inr e0
         \<and> epidemic_run 32767 (\<lambda>k. 32767) (e0, 0) = Some (Inr (r, k))
         \<and> eoutput r = Some tr \<and> length tr = 3)"
proof -
  have a: "\<forall>k. (\<lambda>k::nat. 32767::int) k \<le> 32767" by simp
  show ?thesis using star_run0[OF a, of 7] by (auto simp: star_new)
qed

text \<open>
  C9. With the criterion \<open>NumInfected\<close> and a bound that is at most the number of seeds,
  on a well-formed graph and from distinct in-range seeds, \<open>bound \<le> num_infected\<close> holds
  from the construction on, so the comparison after an increment never succeeds: no pass of
  the \<open>while\<close> loop returns, and the run ends with an empty buffer and
  \<open>bound \<le> num_infected\<close>. (In the star graph with bound 1, it ends with
  \<open>num_infected = 5\<close>.)
\<close>

theorem size_check_never_fires:
  assumes "wf_graph gr" "seeds_ok gr ic"
    and "ic_stop_criterion ic = NumInfected" "ic_bound ic \<le> int (length (ic_infected ic))"
  shows "\<exists>e0. epidemic_new p gr ic out = Inr e0
           \<and> (\<forall>ts c. passes rm rnd (e0, k0) ts c \<longrightarrow> (\<exists>s. c = Next s))
           \<and> (\<exists>r. epidemic_run rm rnd (e0, k0) = Some (Inr r)
                 \<and> queue_empty (active (fst r)) \<and> bound (fst r) \<le> num_infected (fst r))"
proof -
  from epidemic_new_ok[OF assms(1) seeds_okD[OF assms(2)], of p out] obtain e0 where
    e0: "epidemic_new p gr ic out = Inr e0" "base_inv e0"
        "num_infected e0 = int (length (ic_infected ic))" "bound e0 = ic_bound ic"
        "stop_criterion e0 = ic_stop_criterion ic" by blast
  from e0 assms(3,4) have j0: "size_passed e0" by (simp add: size_passed_def)
  let ?Inv = "\<lambda>(ts :: int list) s. base_inv (fst s) \<and> size_passed (fst s)"
  have inv: "case c of Next s \<Rightarrow> ?Inv ts s | Return s \<Rightarrow> False"
    if "passes rm rnd (e0, k0) ts c" for ts c
    using that
  proof (rule passes_inv[where Inv = ?Inv and Fin = "\<lambda>_ _. False"])
    show "?Inv [] (e0, k0)" using e0(2) j0 by simp
  next
    fix ts s u q c
    assume i: "?Inv ts s" and ne: "\<not> queue_empty (active (fst s))"
      and r: "run_node rm rnd s = Inr c"
    obtain e k where s: "s = (e, k)" by (cases s)
    from pass_size_passed[of e rm rnd k] i ne s r
    show "case c of Next s' \<Rightarrow> ?Inv (ts @ [infected (fst s) ! u]) s' | Return s' \<Rightarrow> False"
      by (cases c) simp_all
  qed
  have "\<exists>s. c = Next s" if "passes rm rnd (e0, k0) ts c" for ts c
    using inv[OF that] by (cases c) simp_all
  moreover have "\<exists>r. epidemic_run rm rnd (e0, k0) = Some (Inr r)
                 \<and> queue_empty (active (fst r)) \<and> bound (fst r) \<le> num_infected (fst r)"
  proof -
    from run_total[of "(e0, k0)" rm rnd] e0(2) obtain r ts c where
      r: "epidemic_run rm rnd (e0, k0) = Some (Inr r)" "passes rm rnd (e0, k0) ts c"
         "state_of c = r" "c = Next r \<longrightarrow> queue_empty (active (fst r))"
      by auto
    from inv[OF r(2)] r(3,4) have "queue_empty (active (fst r))" "size_passed (fst r)"
      by (cases c; simp)+
    with r(1) show ?thesis by (auto simp: size_passed_def)
  qed
  ultimately show ?thesis using e0(1) by blast
qed

theorem size_check_never_fires_witness:
  "wf_graph star5 \<and> seeds_ok star5 ic_star1 \<and> ic_stop_criterion ic_star1 = NumInfected
   \<and> ic_bound ic_star1 \<le> int (length (ic_infected ic_star1))
   \<and> (\<exists>e0 r. epidemic_new 1 star5 ic_star1 None = Inr e0
         \<and> epidemic_run 32767 (\<lambda>k. 32767) (e0, 0) = Some (Inr r)
         \<and> queue_empty (active (fst r)) \<and> bound (fst r) = 1 \<and> num_infected (fst r) = 5)"
proof -
  have h: "seeds_ok star5 ic_star1" "ic_stop_criterion ic_star1 = NumInfected"
    "ic_bound ic_star1 \<le> int (length (ic_infected ic_star1))"
    by (simp_all add: seeds_ok_def star5_def ic_star1_def)
  from size_check_never_fires[OF wf_star5 h, of 1 None 32767 "\<lambda>k. 32767" 0]
  obtain e0 r where "epidemic_new 1 star5 ic_star1 None = Inr e0"
    "epidemic_run 32767 (\<lambda>k. 32767) (e0, 0) = Some (Inr r)"
    "queue_empty (active (fst r))" by blast
  moreover from this have "bound (fst r) = 1 \<and> num_infected (fst r) = 5"
    by (auto simp: star1_new star1_run0 star1_end_def)
  ultimately show ?thesis using wf_star5 h by blast
qed

text \<open>
  C10. On a well-formed graph and from distinct in-range seeds, the times \<open>t = infected[u]\<close>
  read for the successively dequeued nodes (the log \<open>ts\<close> of the passes of the \<open>while\<close>
  loop) are nondecreasing; and every node pushed during the pass of a node \<open>u\<close> (the
  slots from the old \<open>end\<close> to the new one; the buffer does not wrap around) has the
  infection time \<open>infected[u] + 1\<close> after the pass. The run returns the state of such a
  sequence of passes.
\<close>

theorem dequeue_times_nondecreasing:
  assumes "wf_graph gr" "seeds_ok gr ic"
  shows "\<exists>e0. epidemic_new p gr ic out = Inr e0
           \<and> (\<forall>ts c. passes rm rnd (e0, k0) ts c \<longrightarrow> sorted ts)
           \<and> (\<forall>ts e k u q c e' k'.
                 passes rm rnd (e0, k0) ts (Next (e, k)) \<and> \<not> queue_empty (active e)
                 \<and> queue_get (active e) = Inr (u, q) \<and> run_node rm rnd (e, k) = Inr c
                 \<and> state_of c = (e', k')
                 \<longrightarrow> qend (active e) \<le> qend (active e') \<and> qend (active e') \<le> gn gr
                     \<and> (\<forall>i. qend (active e) \<le> i \<and> i < qend (active e')
                           \<longrightarrow> infected e' ! (qnodes (active e') ! i) = infected e ! u + 1))
           \<and> (\<exists>r ts c. epidemic_run rm rnd (e0, k0) = Some (Inr r)
                 \<and> passes rm rnd (e0, k0) ts c \<and> state_of c = r)"
proof -
  from epidemic_new_ok[OF assms(1) seeds_okD[OF assms(2)], of p out] obtain e0 where
    e0: "epidemic_new p gr ic out = Inr e0" "base_inv e0" "eg e0 = gr"
        "qbegin (active e0) = 0"
        "\<forall>v < gn gr. infected e0 ! v = (if int v \<in> set (ic_infected ic) then 1 else 0)"
    by blast
  have o0: "ordered e0"
    by (rule epidemic_new_ordered[OF e0(2), where S = "set (ic_infected ic)"]) (use e0 in simp)
  have s: "sorted ts" if "passes rm rnd (e0, k0) ts c" for ts c
    by (rule passes_sorted[OF that e0(2) o0 e0(4)])
  have f: "qend (active e) \<le> qend (active e') \<and> qend (active e') \<le> gn gr
             \<and> (\<forall>i. qend (active e) \<le> i \<and> i < qend (active e')
                   \<longrightarrow> infected e' ! (qnodes (active e') ! i) = infected e ! u + 1)"
    if p: "passes rm rnd (e0, k0) ts (Next (e, k))" and ne: "\<not> queue_empty (active e)"
      and qg: "queue_get (active e) = Inr (u, q)" and r: "run_node rm rnd (e, k) = Inr c"
      and c: "state_of c = (e', k')" for ts e k u q c e' k'
  proof -
    from passes_ordered[OF p e0(2) o0 e0(4)] have b: "base_inv e" and o: "ordered e" by simp_all
    from b have wf: "wf_state e" by (simp add: base_inv_def)
    from qg queue_get_ok[OF wf ne] head_facts(2)[OF b ne]
    have u: "u = enq e ! qbegin (active e)" by simp
    from passes_observable[OF p] observable_base[of rm rnd "(e0, k0)" "(e, k)"] e0(2,3)
    have g: "eg e = gr" by simp
    from pass_ordered[OF b ne o refl, of rm rnd k] r c
    have "base_inv e' \<and> grows (deq e) e' \<and> fresh_from (infected e ! u) (qend (active e)) e'"
      unfolding u by (cases c) auto
    then show ?thesis using g by (auto simp: fresh_from_def base_inv_def wf_state_def grows_def)
  qed
  have t: "\<exists>r ts c. epidemic_run rm rnd (e0, k0) = Some (Inr r)
                 \<and> passes rm rnd (e0, k0) ts c \<and> state_of c = r"
    using run_total[of "(e0, k0)" rm rnd] e0(2) by auto
  from e0(1) s f t show ?thesis by blast
qed

theorem dequeue_times_nondecreasing_witness:
  "wf_graph triangle3 \<and> seeds_ok triangle3 (ic_triangle 7)
   \<and> epidemic_new 1 triangle3 (ic_triangle 7) (Some []) = Inr tri_start
   \<and> epidemic_run 32767 (\<lambda>k. 32767) (tri_start, 0) = Some (Inr (tri_end, 3))
   \<and> passes 32767 (\<lambda>k. 32767) (tri_start, 0) [1, 2, 2] (Next (tri_end, 3))
   \<and> sorted [1, 2, 2 :: int]
   \<and> infected tri_mid1 ! (qnodes (active tri_mid1) ! 1) = infected tri_start ! 0 + 1
   \<and> infected tri_mid1 ! (qnodes (active tri_mid1) ! 2) = infected tri_start ! 0 + 1"
proof -
  from dequeue_times_nondecreasing[OF wf_triangle3 seeds_ok_triangle,
      of 1 7 "Some []" 32767 "\<lambda>k. 32767" 0]
  obtain e0 where e0: "epidemic_new 1 triangle3 (ic_triangle 7) (Some []) = Inr e0"
    and s: "\<forall>ts c. passes 32767 (\<lambda>k. 32767) (e0, 0) ts c \<longrightarrow> sorted ts"
    and f: "\<forall>ts e k u q c e' k'.
                 passes 32767 (\<lambda>k. 32767) (e0, 0) ts (Next (e, k)) \<and> \<not> queue_empty (active e)
                 \<and> queue_get (active e) = Inr (u, q) \<and> run_node 32767 (\<lambda>k. 32767) (e, k) = Inr c
                 \<and> state_of c = (e', k')
                 \<longrightarrow> qend (active e) \<le> qend (active e') \<and> qend (active e') \<le> gn triangle3
                     \<and> (\<forall>i. qend (active e) \<le> i \<and> i < qend (active e')
                           \<longrightarrow> infected e' ! (qnodes (active e') ! i) = infected e ! u + 1)"
    by blast
  from e0 have e: "e0 = tri_start" by (simp add: tri_new)
  from s tri_passes have so: "sorted [1, 2, 2 :: int]" unfolding e by blast
  have p0: "passes 32767 (\<lambda>k. 32767) (tri_start, 0) [] (Next (tri_start, 0))"
    by (rule passes_start)
  from f[unfolded e, rule_format, of "[]" tri_start 0 0 _ "Next (tri_mid1, 2)" tri_mid1 2]
    p0 tri_pass1
  have "\<forall>i. qend (active tri_start) \<le> i \<and> i < qend (active tri_mid1)
           \<longrightarrow> infected tri_mid1 ! (qnodes (active tri_mid1) ! i) = infected tri_start ! 0 + 1"
    by simp
  then have "infected tri_mid1 ! (qnodes (active tri_mid1) ! 1) = infected tri_start ! 0 + 1"
    "infected tri_mid1 ! (qnodes (active tri_mid1) ! 2) = infected tri_start ! 0 + 1"
    by (simp_all add: tri_defs)
  with so show ?thesis
    using wf_triangle3 seeds_ok_triangle tri_new tri_run tri_passes by simp
qed

text \<open>
  C2. On a well-formed graph, from distinct in-range seeds, with the criterion \<open>MaxTime\<close>
  and \<open>p = 1\<close> (every value of \<open>rand()\<close> is at most \<open>RAND_MAX\<close>, so every trial succeeds),
  the run returns, and every node that a walk of at most \<open>bound\<close> arcs reaches from a
  seed has a positive infection time in the state returned. (No assumption on the sign
  of the bound is needed.)
\<close>

theorem reachable_within_bound_infected:
  assumes "wf_graph gr" "seeds_ok gr ic" "ic_stop_criterion ic = MaxTime"
    and "\<forall>k. rnd k \<le> rm"
  shows "\<exists>e0 r k. epidemic_new 1 gr ic out = Inr e0
           \<and> epidemic_run rm rnd (e0, k0) = Some (Inr (r, k))
           \<and> (\<forall>d v. reach_in gr {v. int v \<in> set (ic_infected ic)} d v \<and> int d \<le> ic_bound ic
                 \<longrightarrow> v < gn gr \<and> 0 < infected r ! v)"
proof -
  from epidemic_new_ok[OF assms(1) seeds_okD[OF assms(2)], of 1 out] obtain e0 where
    e0: "epidemic_new 1 gr ic out = Inr e0" "base_inv e0" "eg e0 = gr"
        "qbegin (active e0) = 0"
        "\<forall>v < gn gr. infected e0 ! v = (if int v \<in> set (ic_infected ic) then 1 else 0)"
        "bound e0 = ic_bound ic" "stop_criterion e0 = ic_stop_criterion ic" "ep e0 = 1"
    by blast
  have o0: "ordered e0"
    by (rule epidemic_new_ordered[OF e0(2), where S = "set (ic_infected ic)"]) (use e0 in simp)
  from run_total[of "(e0, k0)" rm rnd] e0(2) obtain r ts c where
    r: "epidemic_run rm rnd (e0, k0) = Some (Inr r)" "passes rm rnd (e0, k0) ts c"
       "state_of c = r" "c = Next r \<longrightarrow> queue_empty (active (fst r))"
    by auto
  from e0(7) assms(3) have st: "stop_criterion e0 = MaxTime" by simp
  note pc = passes_closed[OF r(2) e0(2) o0 e0(4) st e0(8) assms(4)]
  have f: "base_inv (fst r) \<and> covered (fst r) \<and> keeps e0 (fst r)"
  proof (cases c)
    case (Next s)
    with r(3,4) pc show ?thesis by (auto intro: closed_covered_empty)
  next
    case (Return s)
    with r(3) pc show ?thesis by simp
  qed
  then have b: "base_inv (fst r)" and cv: "covered (fst r)" and ke: "keeps e0 (fst r)"
    by simp_all
  from ke e0 have g: "eg (fst r) = gr" and bd: "bound (fst r) = ic_bound ic"
    by (simp_all add: keeps_def)
  have seeds: "\<forall>v \<in> {v. int v \<in> set (ic_infected ic)}. v < gn (eg (fst r)) \<and> infected (fst r) ! v = 1"
  proof
    fix v assume "v \<in> {v. int v \<in> set (ic_infected ic)}"
    then have m: "int v \<in> set (ic_infected ic)" by simp
    with seeds_okD(2)[OF assms(2)] have vl: "v < gn gr" by auto
    with e0(5) m have "infected e0 ! v = 1" by simp
    with ke vl e0(3) have "infected (fst r) ! v = 1" by (simp add: keeps_def)
    with vl g show "v < gn (eg (fst r)) \<and> infected (fst r) ! v = 1" by simp
  qed
  have "v < gn gr \<and> 0 < infected (fst r) ! v"
    if "reach_in gr {v. int v \<in> set (ic_infected ic)} d v \<and> int d \<le> ic_bound ic" for d v
    using covered_reach[OF b cv seeds, of d v] that g bd by simp
  with e0(1) r(1) show ?thesis by (cases r) auto
qed

theorem reachable_within_bound_infected_witness:
  "wf_graph line5 \<and> seeds_ok line5 (ic_line 7) \<and> ic_stop_criterion (ic_line 7) = MaxTime
   \<and> reach_in line5 {v. int v \<in> set (ic_infected (ic_line 7))} 2 2
   \<and> int 2 \<le> ic_bound (ic_line 7)
   \<and> (\<exists>e0 r k. epidemic_new 1 line5 (ic_line 7) (Some []) = Inr e0
         \<and> epidemic_run 32767 (\<lambda>k. 32767) (e0, 0) = Some (Inr (r, k))
         \<and> 0 < infected r ! 2)"
proof -
  have h: "ic_stop_criterion (ic_line 7) = MaxTime" "int 2 \<le> ic_bound (ic_line 7)"
    by (simp_all add: ic_line_def)
  have a: "\<forall>k. (\<lambda>k::nat. 32767::int) k \<le> 32767" by simp
  from reachable_within_bound_infected[where gr = line5 and ic = "ic_line 7"
      and rnd = "\<lambda>k. 32767" and rm = 32767 and out = "Some []" and ?k0.0 = 0,
      OF wf_line5 seeds_ok_line h(1) a]
  obtain e0 r k where "epidemic_new 1 line5 (ic_line 7) (Some []) = Inr e0"
    "epidemic_run 32767 (\<lambda>k. 32767) (e0, 0) = Some (Inr (r, k))"
    "\<forall>d v. reach_in line5 {v. int v \<in> set (ic_infected (ic_line 7))} d v
           \<and> int d \<le> ic_bound (ic_line 7) \<longrightarrow> v < gn line5 \<and> 0 < infected r ! v"
    by blast
  with line_reach2 h(2) show ?thesis using wf_line5 seeds_ok_line h(1) by blast
qed

text \<open>
  C1, as amended. A trial changes \<open>cascade_links\<close> by exactly \<open>+1\<close> when it succeeds and
  its target has infection time 0 (a first infection) or \<open>t + 1\<close> (a co-infection at the
  same step), and leaves it unchanged otherwise (a failed trial, or a target infected at an
  earlier step); a successful trial, and only a successful one, appends its trace record.
  Over a whole run from distinct in-range seeds with a trace sink, \<open>cascade_links\<close> is
  therefore the number of trace records \<open>(t, u, v, id)\<close> whose target has the infection time
  \<open>t + 1\<close> in the state returned. On the triangle \<open>0\<rightarrow>1, 0\<rightarrow>2, 1\<rightarrow>2\<close> with seed 0,
  \<open>p = 1\<close>, \<open>MaxTime\<close> and bound 10, the run ends with three trace records and
  \<open>cascade_links = 2\<close>: the trial \<open>1\<rightarrow>2\<close> is made at step 2 and meets a target
  infected at step 2, not 3.
\<close>

theorem cascade_links_counts:
  assumes "wf_graph gr" "seeds_ok gr ic"
  shows "(\<forall>e k u t v c. v < length (infected e) \<and> attempt rm rnd u t v (e, k) = Inr c \<longrightarrow>
            cascade_links (fst (state_of c))
              = cascade_links e
                + (if trial rm (ep e) (rnd k) \<and> (infected e ! v = 0 \<or> infected e ! v = t + 1)
                   then 1 else 0)
            \<and> eoutput (fst (state_of c))
              = (if trial rm (ep e) (rnd k) then fprintf (eoutput e) (t, u, v, eid e)
                 else eoutput e))
         \<and> (\<exists>e0 r k tr. epidemic_new p gr ic (Some []) = Inr e0
               \<and> epidemic_run rm rnd (e0, k0) = Some (Inr (r, k)) \<and> eoutput r = Some tr
               \<and> cascade_links r
                   = int (length (filter (\<lambda>(t, u, v, i). infected r ! v = t + 1) tr)))
         \<and> ((\<forall>k. rnd k \<le> rm) \<longrightarrow>
               (\<exists>e0 r k. epidemic_new 1 triangle3 (ic_triangle i) (Some []) = Inr e0
                  \<and> epidemic_run rm rnd (e0, 0) = Some (Inr (r, k))
                  \<and> eoutput r = Some [(1, 0, 1, i), (1, 0, 2, i), (2, 1, 2, i)]
                  \<and> num_infected r = 3 \<and> cascade_links r = 2))"
proof (intro conjI allI impI)
  fix e k u t v c
  assume "v < length (infected e) \<and> attempt rm rnd u t v (e, k) = Inr c"
  then have a: "v < length (infected e)" "attempt rm rnd u t v (e, k) = Inr c" by simp_all
  from attempt_law[OF a]
  show "cascade_links (fst (state_of c))
          = cascade_links e
            + (if trial rm (ep e) (rnd k) \<and> (infected e ! v = 0 \<or> infected e ! v = t + 1)
               then 1 else 0)"
    and "eoutput (fst (state_of c))
          = (if trial rm (ep e) (rnd k) then fprintf (eoutput e) (t, u, v, eid e)
             else eoutput e)"
    by simp_all
next
  show "\<exists>e0 r k tr. epidemic_new p gr ic (Some []) = Inr e0
               \<and> epidemic_run rm rnd (e0, k0) = Some (Inr (r, k)) \<and> eoutput r = Some tr
               \<and> cascade_links r
                   = int (length (filter (\<lambda>(t, u, v, i). infected r ! v = t + 1) tr))"
    by (rule run_linked[OF assms])
next
  assume a: "\<forall>k. rnd k \<le> rm"
  note n = triangle_new[of i "Some []"] and r = triangle_run0[OF a, of i]
  show "\<exists>e0 r k. epidemic_new 1 triangle3 (ic_triangle i) (Some []) = Inr e0
                  \<and> epidemic_run rm rnd (e0, 0) = Some (Inr (r, k))
                  \<and> eoutput r = Some [(1, 0, 1, i), (1, 0, 2, i), (2, 1, 2, i)]
                  \<and> num_infected r = 3 \<and> cascade_links r = 2"
    by (rule exI, rule exI, rule exI, rule conjI, rule n, rule conjI, rule r) simp
qed

theorem cascade_links_counts_witness:
  "wf_graph diamond4 \<and> seeds_ok diamond4 ic_diamond
   \<and> epidemic_new 1 diamond4 ic_diamond (Some []) = Inr dia_start
   \<and> epidemic_run 32767 (\<lambda>k. 32767) (dia_start, 0) = Some (Inr (dia_end, 4))
   \<and> eoutput dia_end = Some [(1, 0, 1, 7), (1, 0, 2, 7), (2, 1, 3, 7), (2, 2, 3, 7)]
   \<and> cascade_links dia_end
       = int (length (filter (\<lambda>(t, u, v, i). infected dia_end ! v = t + 1)
                [(1, 0, 1, 7), (1, 0, 2, 7), (2, 1, 3, 7), (2, 2, 3, 7)]))
   \<and> cascade_links dia_end = 4
   \<and> (\<exists>e0 r k. epidemic_new 1 triangle3 (ic_triangle 7) (Some []) = Inr e0
         \<and> epidemic_run 32767 (\<lambda>k. 32767) (e0, 0) = Some (Inr (r, k))
         \<and> cascade_links r = 2)"
proof -
  note t = cascade_links_counts[where gr = diamond4 and ic = ic_diamond and p = 1
      and rm = 32767 and rnd = "\<lambda>k. 32767" and ?k0.0 = 0 and i = 7,
      OF wf_diamond4 seeds_ok_diamond]
  from t[THEN conjunct2, THEN conjunct1] obtain e0 r k tr where b: "epidemic_new 1 diamond4 ic_diamond (Some []) = Inr e0"
    "epidemic_run 32767 (\<lambda>k. 32767) (e0, 0) = Some (Inr (r, k))" "eoutput r = Some tr"
    "cascade_links r = int (length (filter (\<lambda>(t, u, v, i). infected r ! v = t + 1) tr))"
    by blast
  from b(1) have "e0 = dia_start" by (simp add: dia_new)
  with b(2) have "r = dia_end" by (simp add: dia_run)
  with b(3) have "tr = [(1, 0, 1, 7), (1, 0, 2, 7), (2, 1, 3, 7), (2, 2, 3, 7)]"
    by (simp add: dia_end_def)
  with b(4) \<open>r = dia_end\<close> have c: "cascade_links dia_end
       = int (length (filter (\<lambda>(t, u, v, i). infected dia_end ! v = t + 1)
                [(1, 0, 1, 7), (1, 0, 2, 7), (2, 1, 3, 7), (2, 2, 3, 7)]))" by simp
  from t[THEN conjunct2, THEN conjunct2]
  have "\<exists>e0 r k. epidemic_new 1 triangle3 (ic_triangle 7) (Some []) = Inr e0
         \<and> epidemic_run 32767 (\<lambda>k. 32767) (e0, 0) = Some (Inr (r, k))
         \<and> cascade_links r = 2"
    by simp blast
  with c show ?thesis
    using wf_diamond4 seeds_ok_diamond dia_new dia_run by (simp add: dia_end_def)
qed

text \<open>
  The triangle scenario does not end with three cascade links.
\<close>

theorem triangle_three_links_counterexample:
  "\<not> (\<exists>e0 r k. epidemic_new 1 triangle3 (ic_triangle 7) (Some []) = Inr e0
         \<and> epidemic_run 32767 (\<lambda>k. 32767) (e0, 0) = Some (Inr (r, k))
         \<and> cascade_links r = 3)"
  by (auto simp: tri_new tri_run tri_end_def tri_state_def)

end
